theory Spec2Isabelle
  imports Main "HOL-Library.Word" "HOL-Library.Multiset"
begin

section \<open>Python values\<close>

text \<open>
  The values that \<^verbatim>\<open>validate/json_diff.py\<close> handles: what a JSON document decodes to
  (\<^verbatim>\<open>None\<close>, \<^verbatim>\<open>bool\<close>, \<^verbatim>\<open>int\<close>, \<^verbatim>\<open>float\<close>, \<^verbatim>\<open>str\<close>, \<^verbatim>\<open>list\<close>, \<^verbatim>\<open>dict\<close>)
  and the \<^verbatim>\<open>set\<close> that preparation builds. An \<^verbatim>\<open>int\<close> is unbounded, a \<^verbatim>\<open>float\<close> is its
  IEEE 754 binary64 bit pattern. A \<^verbatim>\<open>dict\<close> is the list of its items in insertion order, a
  \<^verbatim>\<open>set\<close> the list of its elements.
\<close>

datatype pyval =
    PNone
  | PBool bool
  | PInt int
  | PFloat "64 word"
  | PStr string
  | PList "pyval list"
  | PDict "(pyval \<times> pyval) list"
  | PSet "pyval list"

text \<open>\<^verbatim>\<open>type(x)\<close>: the exact runtime type; \<^verbatim>\<open>bool\<close> is a type of its own here.\<close>

datatype pytype = T_NoneType | T_bool | T_int | T_float | T_str | T_list | T_dict | T_set

fun py_type :: "pyval \<Rightarrow> pytype" where
  "py_type PNone = T_NoneType"
| "py_type (PBool _) = T_bool"
| "py_type (PInt _) = T_int"
| "py_type (PFloat _) = T_float"
| "py_type (PStr _) = T_str"
| "py_type (PList _) = T_list"
| "py_type (PDict _) = T_dict"
| "py_type (PSet _) = T_set"

text \<open>
  \<^verbatim>\<open>isinstance(x, (int, float, str))\<close>: \<^verbatim>\<open>bool\<close> is a subclass of \<^verbatim>\<open>int\<close>, so a boolean
  passes the test.
\<close>

fun is_scalar :: "pyval \<Rightarrow> bool" where
  "is_scalar (PBool _) = True"
| "is_scalar (PInt _) = True"
| "is_scalar (PFloat _) = True"
| "is_scalar (PStr _) = True"
| "is_scalar _ = False"

fun is_dict :: "pyval \<Rightarrow> bool" where
  "is_dict (PDict _) = True"
| "is_dict _ = False"

subsection \<open>Floats, equality and dictionary keys\<close>

text \<open>
  The fields of a binary64 pattern: sign (bit 63), biased exponent (bits 52 to 62) and
  fraction (bits 0 to 51). Exponent 2047 is an infinity (fraction 0) or a NaN.
\<close>

definition float_sign :: "64 word \<Rightarrow> bool" where
  "float_sign w = bit w 63"

definition float_exp :: "64 word \<Rightarrow> nat" where
  "float_exp w = unat (take_bit 11 (drop_bit 52 w))"

definition float_frac :: "64 word \<Rightarrow> nat" where
  "float_frac w = unat (take_bit 52 w)"

definition is_nan :: "64 word \<Rightarrow> bool" where
  "is_nan w = (float_exp w = 2047 \<and> float_frac w \<noteq> 0)"

text \<open>
  The smallest positive float is \<open>2 ^ -1074\<close>, so every finite float is an integer
  multiple of it: \<open>float_scaled w\<close> is the value of a finite \<open>w\<close> times \<open>2 ^ 1074\<close>, and
  \<open>float_unit\<close> is what the integer 1 becomes on that scale.
\<close>

definition float_unit :: int where
  "float_unit = 2 ^ 1074"

definition float_scaled :: "64 word \<Rightarrow> int" where
  "float_scaled w =
     (if float_sign w then - 1 else 1) *
     (if float_exp w = 0 then int (float_frac w)
      else (2 ^ 52 + int (float_frac w)) * 2 ^ (float_exp w - 1))"

text \<open>
  A \<^verbatim>\<open>dict\<close> or \<^verbatim>\<open>set\<close> finds a key by its hash, then by identity, then by \<^verbatim>\<open>==\<close>. For the
  hashable values above that makes two values the same key exactly when they are equal as
  numbers (\<^verbatim>\<open>True\<close>, \<^verbatim>\<open>1\<close> and \<^verbatim>\<open>1.0\<close> are one key; so are \<^verbatim>\<open>0.0\<close> and \<^verbatim>\<open>-0.0\<close>), equal
  as strings, both \<^verbatim>\<open>None\<close>, or the same NaN object. \<open>py_key\<close> maps a value to that
  identity; it is \<open>None\<close> for a \<^verbatim>\<open>list\<close>, \<^verbatim>\<open>dict\<close> or \<^verbatim>\<open>set\<close>, whose \<^verbatim>\<open>hash\<close> raises
  \<^verbatim>\<open>TypeError\<close>. Object identity is not part of a value: a NaN is identified by its bit
  pattern, as if equal patterns were one object (a JSON decoder returns its one NaN
  constant for every NaN it reads).
\<close>

datatype pykey = KNone | KStr string | KNum int | KInf bool | KNaN "64 word"

definition float_key :: "64 word \<Rightarrow> pykey" where
  "float_key w =
     (if float_exp w = 2047 then (if float_frac w = 0 then KInf (float_sign w) else KNaN w)
      else KNum (float_scaled w))"

fun py_key :: "pyval \<Rightarrow> pykey option" where
  "py_key PNone = Some KNone"
| "py_key (PBool b) = Some (KNum (if b then float_unit else 0))"
| "py_key (PInt i) = Some (KNum (i * float_unit))"
| "py_key (PFloat w) = Some (float_key w)"
| "py_key (PStr s) = Some (KStr s)"
| "py_key (PList _) = None"
| "py_key (PDict _) = None"
| "py_key (PSet _) = None"

definition hashable :: "pyval \<Rightarrow> bool" where
  "hashable v = (py_key v \<noteq> None)"

text \<open>
  \<^verbatim>\<open>a != b\<close> for scalars. \<^verbatim>\<open>diff_json\<close> applies it to two scalars of the same type:
  integers, booleans and strings differ when they are different values, floats by IEEE
  comparison, where a NaN differs from everything, itself included. (Scalars of different
  types, which the last equation covers, compare as numbers.)
\<close>

fun scalar_ne :: "pyval \<Rightarrow> pyval \<Rightarrow> bool" where
  "scalar_ne (PBool a) (PBool b) = (a \<noteq> b)"
| "scalar_ne (PInt a) (PInt b) = (a \<noteq> b)"
| "scalar_ne (PFloat a) (PFloat b) = (is_nan a \<or> is_nan b \<or> float_key a \<noteq> float_key b)"
| "scalar_ne (PStr a) (PStr b) = (a \<noteq> b)"
| "scalar_ne a b = (py_key a \<noteq> py_key b)"

text \<open>\<^verbatim>\<open>key in d\<close> and \<^verbatim>\<open>d[key]\<close> for the items of a \<^verbatim>\<open>dict\<close>, \<^verbatim>\<open>key in s\<close> for a \<^verbatim>\<open>set\<close>.\<close>

fun py_lookup :: "(pyval \<times> 'a) list \<Rightarrow> pyval \<Rightarrow> 'a option" where
  "py_lookup [] key = None"
| "py_lookup ((k, v) # kvs) key = (if py_key k = py_key key then Some v else py_lookup kvs key)"

definition key_in :: "pyval \<Rightarrow> pyval list \<Rightarrow> bool" where
  "key_in key ks = (py_key key \<in> set (map py_key ks))"

text \<open>
  \<^verbatim>\<open>set(xs)\<close>: the elements of \<open>xs\<close> without repetition; the element added first stays.
  \<^verbatim>\<open>a.union(b)\<close> is the set of the elements of \<open>a\<close> followed by those of \<open>b\<close>.
\<close>

fun py_set :: "pyval list \<Rightarrow> pyval list" where
  "py_set [] = []"
| "py_set (x # xs) = x # filter (\<lambda>y. py_key y \<noteq> py_key x) (py_set xs)"

definition py_union :: "pyval list \<Rightarrow> pyval list \<Rightarrow> pyval list" where
  "py_union a b = py_set (a @ b)"

section \<open>The diff result\<close>

text \<open>
  The classes \<^verbatim>\<open>TypeDiff\<close>, \<^verbatim>\<open>ValueDiff\<close>, \<^verbatim>\<open>Miss\<close> and \<^verbatim>\<open>DictDiff\<close> with their fields;
  the \<^verbatim>\<open>children\<close> of a \<^verbatim>\<open>DictDiff\<close> are a \<^verbatim>\<open>dict\<close>, here the list of its items in
  insertion order. \<^verbatim>\<open>diff_json\<close> returns one of them or \<^verbatim>\<open>None\<close>. None of the classes
  defines \<^verbatim>\<open>__bool__\<close> or \<^verbatim>\<open>__len__\<close>, so \<^verbatim>\<open>if child_diff:\<close> tests for \<^verbatim>\<open>None\<close>.
\<close>

datatype diff =
    TypeDiff pyval pyval
  | ValueDiff pyval pyval
  | Miss string pyval
  | DictDiff "(pyval \<times> diff) list"

datatype error = NotImplementedError | AssertionError | TypeError | KeyError

text \<open>
  \<^verbatim>\<open>DictDiff.add_child\<close>: the assertion that the key is new, then the assignment.
  \<^verbatim>\<open>DictDiff.has_diff\<close>: at least one child.
\<close>

definition add_child :: "(pyval \<times> diff) list \<Rightarrow> pyval \<Rightarrow> diff \<Rightarrow> error + (pyval \<times> diff) list" where
  "add_child children key d =
     (if key_in key (map fst children) then Inl AssertionError
      else Inr (children @ [(key, d)]))"

definition has_diff :: "(pyval \<times> diff) list \<Rightarrow> bool" where
  "has_diff children = (length children > 0)"

section \<open>The comparator\<close>

text \<open>
  \<^verbatim>\<open>diff_json(source, destination)\<close>. The result is \<open>Inl\<close> of the exception raised, or
  \<open>Inr\<close> of the value returned (\<open>None\<close> for Python's \<^verbatim>\<open>None\<close>). Each \<^verbatim>\<open>for\<close> loop is a
  \<open>fold\<close> over the keys whose state is the exception raised so far or the children added
  so far; once an exception is raised the remaining keys are skipped. Python does not
  specify the order in which a \<^verbatim>\<open>set\<close> is iterated: the parameter \<open>order\<close> is that order, a
  function from the elements of a set to the sequence the loop visits.
\<close>

function diff_json ::
  "(pyval list \<Rightarrow> pyval list) \<Rightarrow> pyval \<Rightarrow> pyval \<Rightarrow> error + diff option" where
  "diff_json order source destination =
     (if py_type source \<noteq> py_type destination then Inr (Some (TypeDiff source destination))
      else if is_scalar source then
        (if scalar_ne source destination then Inr (Some (ValueDiff source destination))
         else Inr None)
      else case (source, destination) of
        (PDict s, PDict d) \<Rightarrow>
          (case fold (\<lambda>key acc. case acc of
                    Inl e \<Rightarrow> Inl e
                  | Inr children \<Rightarrow>
                      (case py_lookup s key of
                        None \<Rightarrow>
                          (case py_lookup d key of
                            None \<Rightarrow> Inl KeyError
                          | Some dv \<Rightarrow> add_child children key (Miss ''SOURCE'' dv))
                      | Some sv \<Rightarrow>
                          (case py_lookup d key of
                            None \<Rightarrow> add_child children key (Miss ''DESTINATION'' sv)
                          | Some dv \<Rightarrow>
                              (case diff_json order sv dv of
                                Inl e \<Rightarrow> Inl e
                              | Inr None \<Rightarrow> Inr children
                              | Inr (Some child_diff) \<Rightarrow> add_child children key child_diff))))
                 (order (py_union (map fst s) (map fst d))) (Inr []) of
            Inl e \<Rightarrow> Inl e
          | Inr children \<Rightarrow> if has_diff children then Inr (Some (DictDiff children)) else Inr None)
      | (PSet s, PSet d) \<Rightarrow>
          (case fold (\<lambda>key acc. case acc of
                    Inl e \<Rightarrow> Inl e
                  | Inr children \<Rightarrow>
                      if \<not> key_in key s then add_child children key (Miss ''SOURCE'' key)
                      else if \<not> key_in key d then add_child children key (Miss ''DESTINATION'' key)
                      else Inr children)
                 (order (py_union s d)) (Inr []) of
            Inl e \<Rightarrow> Inl e
          | Inr children \<Rightarrow> if has_diff children then Inr (Some (DictDiff children)) else Inr None)
      | _ \<Rightarrow> Inl NotImplementedError)"
  by pat_completeness auto
termination
proof (relation "measure (\<lambda>(order, source, destination). size source)", goal_cases)
  case 1
  show ?case by simp
next
  case (2 order source destination s d key acc children sv dv)
  have "py_lookup kvs k = Some v \<Longrightarrow> size v < Suc (size_list (size_prod size size) kvs)"
    for kvs :: "(pyval \<times> pyval) list" and k v
    by (induction kvs) (auto split: if_splits)
  with 2 show ?case by (auto split: if_splits)
qed

section \<open>The configuration\<close>

text \<open>
  \<^verbatim>\<open>DiffConfig\<close>. Its constructor leaves in \<^verbatim>\<open>primary_key\<close> either the string
  \<^verbatim>\<open>"__HASH__"\<close> or a list: the list it was given, or the one-element list of whatever else
  it was given, \<^verbatim>\<open>None\<close> included. \<^verbatim>\<open>ignore_keys\<close> is \<^verbatim>\<open>None\<close> or a collection of keys (the
  list of its elements), \<^verbatim>\<open>children\<close> is \<^verbatim>\<open>None\<close> or a \<^verbatim>\<open>dict\<close> from keys to configurations.
\<close>

datatype pk = PK_HASH | PK_fields "pyval list"

datatype diff_config =
  DiffConfig (primary_key: pk) (ignore_keys: "pyval list option")
    (children: "(pyval \<times> diff_config) list option")

definition DiffConfig_init ::
  "pyval \<Rightarrow> pyval list option \<Rightarrow> (pyval \<times> diff_config) list option \<Rightarrow> diff_config" where
  "DiffConfig_init pkey ignored_keys cs =
     DiffConfig
       (if pkey = PStr ''__HASH__'' then PK_HASH
        else (case pkey of PList fields \<Rightarrow> PK_fields fields | _ \<Rightarrow> PK_fields [pkey]))
       ignored_keys cs"

text \<open>The truth value of \<^verbatim>\<open>config.primary_key\<close>: a non-empty string, or a non-empty list.\<close>

fun pk_truthy :: "pk \<Rightarrow> bool" where
  "pk_truthy PK_HASH = True"
| "pk_truthy (PK_fields fields) = (fields \<noteq> [])"

text \<open>
  \<^verbatim>\<open>config and config.ignore_keys and key in config.ignore_keys\<close>, for a key of a \<^verbatim>\<open>dict\<close>.
\<close>

definition ignored :: "diff_config option \<Rightarrow> pyval \<Rightarrow> bool" where
  "ignored config key =
     (case config of
        None \<Rightarrow> False
      | Some cfg \<Rightarrow>
          (case ignore_keys cfg of
             None \<Rightarrow> False
           | Some ks \<Rightarrow> ks \<noteq> [] \<and> key_in key ks))"

text \<open>
  \<^verbatim>\<open>child_config\<close>: \<^verbatim>\<open>config.children.get(key, None)\<close> when \<^verbatim>\<open>config and config.children\<close>,
  otherwise \<^verbatim>\<open>None\<close>.
\<close>

definition child_config :: "diff_config option \<Rightarrow> pyval \<Rightarrow> diff_config option" where
  "child_config config key =
     (case config of
        None \<Rightarrow> None
      | Some cfg \<Rightarrow>
          (case children cfg of
             None \<Rightarrow> None
           | Some cs \<Rightarrow> if cs \<noteq> [] then py_lookup cs key else None))"

section \<open>Preparation\<close>

text \<open>\<^verbatim>\<open>t in s\<close> for two strings: \<open>t\<close> occurs in \<open>s\<close> as a contiguous substring.\<close>

fun starts_with :: "string \<Rightarrow> string \<Rightarrow> bool" where
  "starts_with s [] = True"
| "starts_with [] (c # t) = False"
| "starts_with (x # s) (c # t) = (x = c \<and> starts_with s t)"

fun is_substring :: "string \<Rightarrow> string \<Rightarrow> bool" where
  "is_substring t [] = (t = [])"
| "is_substring t (x # s) = (starts_with (x # s) t \<or> is_substring t s)"

text \<open>
  \<^verbatim>\<open>primary_key in converted\<close> and \<^verbatim>\<open>converted[primary_key]\<close>, where \<open>converted\<close> is what
  \<^verbatim>\<open>prepare_diff_input\<close> returned: a scalar, a \<^verbatim>\<open>dict\<close> or a \<^verbatim>\<open>set\<close> (never \<^verbatim>\<open>None\<close> or a
  list, by \<open>prepare_result_type\<close> below). A \<^verbatim>\<open>dict\<close> hashes the key, a \<^verbatim>\<open>set\<close> too (but it looks a \<^verbatim>\<open>set\<close> up as a
  \<^verbatim>\<open>frozenset\<close>, which none of its scalar elements equals), a string accepts only a string,
  and a number is not a container. Only a \<^verbatim>\<open>dict\<close> can be subscripted with the key found.
\<close>

fun py_contains :: "pyval \<Rightarrow> pyval \<Rightarrow> error + bool" where
  "py_contains (PDict kvs) key =
     (if hashable key then Inr (py_lookup kvs key \<noteq> None) else Inl TypeError)"
| "py_contains (PSet xs) key =
     (if hashable key then Inr (key_in key xs)
      else if py_type key = T_set then Inr False else Inl TypeError)"
| "py_contains (PStr s) key = (case key of PStr t \<Rightarrow> Inr (is_substring t s) | _ \<Rightarrow> Inl TypeError)"
| "py_contains _ key = Inl TypeError"

fun py_getitem :: "pyval \<Rightarrow> pyval \<Rightarrow> error + pyval" where
  "py_getitem (PDict kvs) key =
     (if hashable key then (case py_lookup kvs key of None \<Rightarrow> Inl KeyError | Some v \<Rightarrow> Inr v)
      else Inl TypeError)"
| "py_getitem _ key = Inl TypeError"

text \<open>
  The key of a record under a list of candidate fields: the loop
  \<^verbatim>\<open>for primary_key in config.primary_key\<close> with its \<^verbatim>\<open>break\<close>, starting from \<^verbatim>\<open>key = None\<close>.
\<close>

fun find_key :: "pyval list \<Rightarrow> pyval \<Rightarrow> error + pyval" where
  "find_key [] converted = Inr PNone"
| "find_key (field # rest) converted =
     (case py_contains converted field of
        Inl e \<Rightarrow> Inl e
      | Inr True \<Rightarrow> py_getitem converted field
      | Inr False \<Rightarrow> find_key rest converted)"

text \<open>
  The message of \<^verbatim>\<open>logging.info\<close> for a duplicate. \<open>str\<close> is Python's built-in \<^verbatim>\<open>str\<close>, a
  parameter of the model.
\<close>

definition duplicates_message :: "(pyval \<Rightarrow> string) \<Rightarrow> pyval \<Rightarrow> pyval \<Rightarrow> string" where
  "duplicates_message str converted kept =
     ''Duplicates found:'' @ [CHR 0x0A] @ str converted @ [CHR 0x0A] @ ''---'' @ [CHR 0x0A] @ str kept"

text \<open>
  The key of a prepared record: \<^verbatim>\<open>str(converted)\<close> under \<^verbatim>\<open>"__HASH__"\<close>, otherwise the loop
  over the candidate fields.
\<close>

definition record_key :: "(pyval \<Rightarrow> string) \<Rightarrow> pk \<Rightarrow> pyval \<Rightarrow> error + pyval" where
  "record_key str pkey converted =
     (case pkey of
        PK_HASH \<Rightarrow> Inr (PStr (str converted))
      | PK_fields fields \<Rightarrow> find_key fields converted)"

text \<open>
  The body of the loop over a list of records, after the record has been prepared:
  \<open>prepared\<close> is what \<^verbatim>\<open>prepare_diff_input(inner, config)\<close> gave (its result or exception, and
  the messages it logged), \<open>result\<close> and \<open>log\<close> are the \<^verbatim>\<open>dict\<close> built and the messages
  logged so far. \<^verbatim>\<open>key not in result\<close> hashes the key.
\<close>

definition record_step ::
  "(pyval \<Rightarrow> string) \<Rightarrow> pk \<Rightarrow> (error + pyval) \<times> string list \<Rightarrow>
     (pyval \<times> pyval) list \<Rightarrow> string list \<Rightarrow> (error + (pyval \<times> pyval) list) \<times> string list" where
  "record_step str pkey prepared result log =
     (case prepared of
        (Inl e, l) \<Rightarrow> (Inl e, log @ l)
      | (Inr converted, l) \<Rightarrow>
          (case record_key str pkey converted of
             Inl e \<Rightarrow> (Inl e, log @ l)
           | Inr key \<Rightarrow>
               if \<not> hashable key then (Inl TypeError, log @ l)
               else (case py_lookup result key of
                       None \<Rightarrow> (Inr (result @ [(key, converted)]), log @ l)
                     | Some kept \<Rightarrow>
                         (Inr result, log @ l @ [duplicates_message str converted kept]))))"

text \<open>\<^verbatim>\<open>result[key] = value\<close>: a new item goes last, an old key keeps its place.\<close>

fun py_setitem :: "(pyval \<times> 'a) list \<Rightarrow> pyval \<Rightarrow> 'a \<Rightarrow> (pyval \<times> 'a) list" where
  "py_setitem [] key v = [(key, v)]"
| "py_setitem ((k, x) # kvs) key v =
     (if py_key k = py_key key then (k, v) # kvs else (k, x) # py_setitem kvs key v)"

text \<open>
  \<^verbatim>\<open>prepare_diff_input(data, config)\<close>. The result pairs the exception raised (\<open>Inl\<close>) or the
  value returned (\<open>Inr\<close>) with the messages logged at level INFO, in order; what was logged
  before an exception stays logged. \<open>config\<close> is \<^verbatim>\<open>None\<close> or a \<^verbatim>\<open>DiffConfig\<close>, so the
  assertion of the \<^verbatim>\<open>dict\<close> branch holds. \<^verbatim>\<open>set(data)\<close> hashes every element.
\<close>

function prepare_diff_input ::
  "(pyval \<Rightarrow> string) \<Rightarrow> pyval \<Rightarrow> diff_config option \<Rightarrow> (error + pyval) \<times> string list" where
  "prepare_diff_input str data config =
     (case data of
        PList xs \<Rightarrow>
          (case xs of
             [] \<Rightarrow> (Inr (PDict []), [])
           | x0 # _ \<Rightarrow>
               if is_scalar x0 then
                 (if list_all hashable xs then (Inr (PSet (py_set xs)), [])
                  else (Inl TypeError, []))
               else if is_dict x0 then
                 (case config of
                    None \<Rightarrow> (Inl AssertionError, [])
                  | Some cfg \<Rightarrow>
                      if \<not> pk_truthy (primary_key cfg) then (Inl AssertionError, [])
                      else
                        (case fold (\<lambda>inner (acc, log). case acc of
                                      Inl e \<Rightarrow> (Inl e, log)
                                    | Inr result \<Rightarrow>
                                        record_step str (primary_key cfg)
                                          (prepare_diff_input str inner config) result log)
                                xs (Inr [], []) of
                           (Inl e, log) \<Rightarrow> (Inl e, log)
                         | (Inr result, log) \<Rightarrow> (Inr (PDict result), log)))
               else (Inl NotImplementedError, []))
      | PDict kvs \<Rightarrow>
          if kvs = [] then (Inr (PDict []), [])
          else
            (case fold (\<lambda>(key, value) (acc, log). case acc of
                          Inl e \<Rightarrow> (Inl e, log)
                        | Inr result \<Rightarrow>
                            if ignored config key then (Inr result, log)
                            else
                              (case prepare_diff_input str value (child_config config key) of
                                 (Inl e, l) \<Rightarrow> (Inl e, log @ l)
                               | (Inr v, l) \<Rightarrow> (Inr (py_setitem result key v), log @ l)))
                    kvs (Inr [], []) of
               (Inl e, log) \<Rightarrow> (Inl e, log)
             | (Inr result, log) \<Rightarrow> (Inr (PDict result), log))
      | PNone \<Rightarrow> (Inl NotImplementedError, [])
      | PSet _ \<Rightarrow> (Inl NotImplementedError, [])
      | _ \<Rightarrow> (Inr data, []))"
  by pat_completeness auto
termination
proof (relation "measure (\<lambda>(str, data, config). size data)", goal_cases)
  case 1
  show ?case by simp
next
  case (2 str data config xs x0 rest cfg inner)
  have "x \<in> set l \<Longrightarrow> size x < Suc (size_list size l)" for l :: "pyval list" and x
    by (induction l) auto
  with 2 show ?case by fastforce
next
  case (3 str data config kvs kv acc key val)
  have "(k, v) \<in> set l \<Longrightarrow> size v < Suc (size_list (size_prod size size) l)"
    for l :: "(pyval \<times> pyval) list" and k v
    by (induction l) auto
  with 3 show ?case by auto
qed

section \<open>Notions of the specification\<close>

text \<open>
  A canonical value: a scalar (\<^verbatim>\<open>int\<close>, which includes \<^verbatim>\<open>bool\<close>, \<^verbatim>\<open>float\<close> or \<^verbatim>\<open>str\<close>), a
  mapping whose keys are hashable and pairwise different keys and whose values are
  canonical, or a set of pairwise different scalars.
\<close>

fun canonical :: "pyval \<Rightarrow> bool" where
  "canonical (PBool _) = True"
| "canonical (PInt _) = True"
| "canonical (PFloat _) = True"
| "canonical (PStr _) = True"
| "canonical (PDict kvs) =
     (distinct (map (\<lambda>kv. py_key (fst kv)) kvs) \<and>
      (\<forall>kv \<in> set kvs. hashable (fst kv) \<and> canonical (snd kv)))"
| "canonical (PSet xs) = (distinct (map py_key xs) \<and> (\<forall>x \<in> set xs. is_scalar x))"
| "canonical _ = False"

text \<open>
  No float that \<^verbatim>\<open>diff_json(v, v)\<close> compares with \<^verbatim>\<open>!=\<close> is a NaN: the value itself, or a value
  of a mapping, at any depth.
\<close>

fun no_nan_value :: "pyval \<Rightarrow> bool" where
  "no_nan_value (PFloat w) = (\<not> is_nan w)"
| "no_nan_value (PDict kvs) = (\<forall>kv \<in> set kvs. no_nan_value (snd kv))"
| "no_nan_value _ = True"

text \<open>
  A diff made of NaN mismatches only: a \<^verbatim>\<open>ValueDiff\<close> whose source and destination are one
  and the same NaN float, or a \<^verbatim>\<open>DictDiff\<close> with at least one child, each of whose children
  is again such a diff. A \<^verbatim>\<open>TypeDiff\<close> or a \<^verbatim>\<open>Miss\<close> is not.
\<close>

fun nan_self_diff :: "diff \<Rightarrow> bool" where
  "nan_self_diff (ValueDiff a b) = (a = b \<and> (case a of PFloat w \<Rightarrow> is_nan w | _ \<Rightarrow> False))"
| "nan_self_diff (DictDiff cs) = (cs \<noteq> [] \<and> (\<forall>kd \<in> set cs. nan_self_diff (snd kd)))"
| "nan_self_diff _ = False"

text \<open>Every \<^verbatim>\<open>DictDiff\<close> node of a diff result has at least one child.\<close>

fun no_empty_DictDiff :: "diff \<Rightarrow> bool" where
  "no_empty_DictDiff (DictDiff cs) =
     (cs \<noteq> [] \<and> (\<forall>kd \<in> set cs. no_empty_DictDiff (snd kd)))"
| "no_empty_DictDiff _ = True"

text \<open>
  The key that the specification gives a prepared record under a list of candidate fields:
  the value of the first candidate that is a key of the record, \<^verbatim>\<open>None\<close> when there is none.
\<close>

definition spec_record_key :: "pyval list \<Rightarrow> (pyval \<times> pyval) list \<Rightarrow> pyval" where
  "spec_record_key fields kvs =
     (case filter (\<lambda>f. py_lookup kvs f \<noteq> None) fields of
        [] \<Rightarrow> PNone
      | f # _ \<Rightarrow> (case py_lookup kvs f of Some v \<Rightarrow> v | None \<Rightarrow> PNone))"

section \<open>Auxiliary functions\<close>

text \<open>
  The two loops of \<^verbatim>\<open>diff_json\<close> have one shape: each key gets a child, an exception or
  nothing, and a child is added with \<open>add_child\<close>. \<open>dict_child\<close> and \<open>set_child\<close> are what the
  bodies of the two loops give a key, \<open>collect\<close> is the loop, and \<open>finish\<close> is the test of
  \<^verbatim>\<open>has_diff\<close> after it. They are shown below to be what \<open>diff_json\<close> computes.
\<close>

definition dict_child ::
  "(pyval list \<Rightarrow> pyval list) \<Rightarrow> (pyval \<times> pyval) list \<Rightarrow> (pyval \<times> pyval) list \<Rightarrow> pyval \<Rightarrow>
     error + diff option" where
  "dict_child order s d key =
     (case py_lookup s key of
        None \<Rightarrow>
          (case py_lookup d key of
             None \<Rightarrow> Inl KeyError
           | Some dv \<Rightarrow> Inr (Some (Miss ''SOURCE'' dv)))
      | Some sv \<Rightarrow>
          (case py_lookup d key of
             None \<Rightarrow> Inr (Some (Miss ''DESTINATION'' sv))
           | Some dv \<Rightarrow> diff_json order sv dv))"

definition set_child :: "pyval list \<Rightarrow> pyval list \<Rightarrow> pyval \<Rightarrow> error + diff option" where
  "set_child s d key =
     (if \<not> key_in key s then Inr (Some (Miss ''SOURCE'' key))
      else if \<not> key_in key d then Inr (Some (Miss ''DESTINATION'' key))
      else Inr None)"

fun collect ::
  "(pyval \<Rightarrow> error + diff option) \<Rightarrow> pyval list \<Rightarrow> (pyval \<times> diff) list \<Rightarrow>
     error + (pyval \<times> diff) list" where
  "collect child [] cs = Inr cs"
| "collect child (key # keys) cs =
     (case child key of
        Inl e \<Rightarrow> Inl e
      | Inr None \<Rightarrow> collect child keys cs
      | Inr (Some c) \<Rightarrow>
          (case add_child cs key c of
             Inl e \<Rightarrow> Inl e
           | Inr cs' \<Rightarrow> collect child keys cs'))"

definition finish :: "error + (pyval \<times> diff) list \<Rightarrow> error + diff option" where
  "finish r =
     (case r of
        Inl e \<Rightarrow> Inl e
      | Inr cs \<Rightarrow> if has_diff cs then Inr (Some (DictDiff cs)) else Inr None)"

text \<open>
  The loop of \<^verbatim>\<open>prepare_diff_input\<close> over a list of records, as a function of what preparing
  each record gave: \<open>records_loop\<close> runs \<open>record_step\<close> over them until an exception, and
  \<open>as_dict\<close> returns the mapping built.
\<close>

definition records_loop ::
  "(pyval \<Rightarrow> string) \<Rightarrow> pk \<Rightarrow> ((error + pyval) \<times> string list) list \<Rightarrow>
     (error + (pyval \<times> pyval) list) \<times> string list \<Rightarrow>
     (error + (pyval \<times> pyval) list) \<times> string list" where
  "records_loop str pkey ps st =
     fold (\<lambda>p (acc, log). case acc of
                Inl e \<Rightarrow> (Inl e, log)
              | Inr result \<Rightarrow> record_step str pkey p result log) ps st"

definition as_dict ::
  "(error + (pyval \<times> pyval) list) \<times> string list \<Rightarrow> (error + pyval) \<times> string list" where
  "as_dict st =
     (case st of
        (Inl e, log) \<Rightarrow> (Inl e, log)
      | (Inr result, log) \<Rightarrow> (Inr (PDict result), log))"

section \<open>Facts about keys, loops and the comparator\<close>

declare diff_json.simps [simp del]
declare prepare_diff_input.simps [simp del]

lemma diff_json_type_diff:
  "py_type a \<noteq> py_type b \<Longrightarrow> diff_json order a b = Inr (Some (TypeDiff a b))"
  by (simp add: diff_json.simps)

lemma diff_json_scalars:
  "py_type a = py_type b \<Longrightarrow> is_scalar a \<Longrightarrow>
   diff_json order a b = (if scalar_ne a b then Inr (Some (ValueDiff a b)) else Inr None)"
  by (simp add: diff_json.simps)

lemma fold_error_dict:
  "fold (\<lambda>key acc. case acc of Inl e \<Rightarrow> Inl e | Inr cs \<Rightarrow> f key cs) keys (Inl e) = Inl e"
  by (induction keys) auto

lemma fold_collect:
  assumes "\<And>key cs. key \<in> set keys \<Longrightarrow>
    f key cs = (case child key of Inl e \<Rightarrow> Inl e | Inr None \<Rightarrow> Inr cs
                | Inr (Some c) \<Rightarrow> add_child cs key c)"
  shows "fold (\<lambda>key acc. case acc of Inl e \<Rightarrow> Inl e | Inr cs \<Rightarrow> f key cs) keys (Inr cs)
         = collect child keys cs"
  using assms
proof (induction keys arbitrary: cs)
  case Nil
  then show ?case by simp
next
  case (Cons key keys)
  then show ?case
    by (auto simp: fold_error_dict split: sum.splits option.splits)
qed

lemma diff_json_dict:
  "diff_json order (PDict s) (PDict d) =
     finish (collect (dict_child order s d) (order (py_union (map fst s) (map fst d))) [])"
proof -
  have "fold (\<lambda>key acc. case acc of
                    Inl e \<Rightarrow> Inl e
                  | Inr chn \<Rightarrow>
                      (case py_lookup s key of
                        None \<Rightarrow>
                          (case py_lookup d key of
                            None \<Rightarrow> Inl KeyError
                          | Some dv \<Rightarrow> add_child chn key (Miss ''SOURCE'' dv))
                      | Some sv \<Rightarrow>
                          (case py_lookup d key of
                            None \<Rightarrow> add_child chn key (Miss ''DESTINATION'' sv)
                          | Some dv \<Rightarrow>
                              (case diff_json order sv dv of
                                Inl e \<Rightarrow> Inl e
                              | Inr None \<Rightarrow> Inr chn
                              | Inr (Some child_diff) \<Rightarrow> add_child chn key child_diff))))
                 keys (Inr [])
        = collect (dict_child order s d) keys []" for keys
    by (rule fold_collect) (auto simp: dict_child_def split: option.splits sum.splits)
  then show ?thesis
    by (simp add: diff_json.simps finish_def)
qed

lemma diff_json_set:
  "diff_json order (PSet s) (PSet d) = finish (collect (set_child s d) (order (py_union s d)) [])"
proof -
  have "fold (\<lambda>key acc. case acc of
                    Inl e \<Rightarrow> Inl e
                  | Inr chn \<Rightarrow>
                      if \<not> key_in key s then add_child chn key (Miss ''SOURCE'' key)
                      else if \<not> key_in key d then add_child chn key (Miss ''DESTINATION'' key)
                      else Inr chn)
                 keys (Inr [])
        = collect (set_child s d) keys []" for keys
    by (rule fold_collect) (auto simp: set_child_def)
  then show ?thesis
    by (simp add: diff_json.simps finish_def)
qed

lemma diff_json_unsupported:
  "diff_json order PNone PNone = Inl NotImplementedError"
  "diff_json order (PList xs) (PList ys) = Inl NotImplementedError"
  by (simp_all add: diff_json.simps)


lemma py_lookup_None_iff:
  "py_lookup kvs k = None \<longleftrightarrow> (\<forall>kv \<in> set kvs. py_key (fst kv) \<noteq> py_key k)"
  by (induction kvs) (auto split: if_splits)

lemma py_lookup_SomeD:
  "py_lookup kvs k = Some v \<Longrightarrow> \<exists>k'. (k', v) \<in> set kvs \<and> py_key k' = py_key k"
  by (induction kvs) (auto split: if_splits)

lemma py_lookup_mem:
  "distinct (map (\<lambda>kv. py_key (fst kv)) kvs) \<Longrightarrow> (k, v) \<in> set kvs \<Longrightarrow> py_lookup kvs k = Some v"
  by (induction kvs) (auto simp: image_iff)

lemma py_lookup_cong_key:
  "py_key k = py_key k' \<Longrightarrow> py_lookup kvs k = py_lookup kvs k'"
  by (induction kvs) auto

lemma py_lookup_append:
  "py_lookup (xs @ ys) k = (case py_lookup xs k of None \<Rightarrow> py_lookup ys k | Some v \<Rightarrow> Some v)"
  by (induction xs) auto

lemma py_key_py_set: "py_key ` set (py_set xs) = py_key ` set xs"
proof (induction xs)
  case Nil
  then show ?case by simp
next
  case (Cons x xs)
  have "py_key ` set (filter (\<lambda>y. py_key y \<noteq> py_key x) (py_set xs))
        = py_key ` set (py_set xs) - {py_key x}"
    by auto
  with Cons.IH show ?case by auto
qed

lemma set_py_set_subset: "set (py_set xs) \<subseteq> set xs"
  by (induction xs) auto

lemma distinct_py_set: "distinct (map py_key (py_set xs))"
proof (induction xs)
  case Nil
  then show ?case by simp
next
  case (Cons x xs)
  have "distinct (map py_key (filter P (py_set xs)))" for P
    using Cons.IH by (simp add: distinct_map_filter)
  then show ?case by (auto simp: image_iff)
qed

lemma order_set:
  assumes "\<And>xs. mset (order xs) = mset xs"
  shows "set (order xs) = set (xs :: pyval list)"
  using assms by (metis mset_eq_setD)

lemma order_distinct:
  assumes "\<And>xs. mset (order xs) = mset xs"
  shows "distinct (map py_key (order xs)) = distinct (map py_key (xs :: pyval list))"
proof -
  have "mset (map py_key (order xs)) = mset (map py_key xs)"
    using assms by (metis mset_map)
  then show ?thesis by (rule mset_eq_imp_distinct_iff)
qed

lemma add_child_fresh:
  "\<not> key_in k (map fst cs) \<Longrightarrow> add_child cs k c = Inr (cs @ [(k, c)])"
  by (simp add: add_child_def)

lemma collect_from:
  "collect child K cs = Inr cs' \<Longrightarrow> (k, c) \<in> set cs' \<Longrightarrow>
   (k, c) \<in> set cs \<or> (k \<in> set K \<and> child k = Inr (Some c))"
proof (induction K arbitrary: cs)
  case Nil
  then show ?case by simp
next
  case (Cons a K)
  show ?case
  proof (cases "child a")
    case (Inl e)
    with Cons.prems show ?thesis by simp
  next
    case (Inr r)
    show ?thesis
    proof (cases r)
      case None
      with Inr Cons show ?thesis by auto
    next
      case (Some c')
      with Inr Cons.prems obtain cs1 where a: "add_child cs a c' = Inr cs1"
        and b: "collect child K cs1 = Inr cs'"
        by (auto split: sum.splits)
      from a have cs1: "cs1 = cs @ [(a, c')]"
        by (auto simp: add_child_def split: if_splits)
      from Cons.IH[OF b Cons.prems(2)] cs1 Inr Some show ?thesis by auto
    qed
  qed
qed

lemma collect_nonempty:
  "collect child K cs = Inr cs' \<Longrightarrow> cs \<noteq> [] \<Longrightarrow> cs' \<noteq> []"
proof (induction K arbitrary: cs)
  case Nil
  then show ?case by simp
next
  case (Cons a K)
  then show ?case
    by (auto simp: add_child_def split: sum.splits option.splits if_splits)
qed

lemma collect_error_from:
  "distinct (map py_key K) \<Longrightarrow> \<forall>k \<in> set K. \<not> key_in k (map fst cs) \<Longrightarrow>
   collect child K cs = Inl e \<Longrightarrow> \<exists>k \<in> set K. child k = Inl e"
proof (induction K arbitrary: cs)
  case Nil
  then show ?case by simp
next
  case (Cons a K)
  show ?case
  proof (cases "child a")
    case (Inl e')
    with Cons.prems show ?thesis by simp
  next
    case (Inr r)
    show ?thesis
    proof (cases r)
      case None
      with Inr Cons show ?thesis by auto
    next
      case (Some c')
      from Cons.prems(2) have a: "add_child cs a c' = Inr (cs @ [(a, c')])"
        by (simp add: add_child_fresh)
      with Inr Some Cons.prems(3) have b: "collect child K (cs @ [(a, c')]) = Inl e"
        by simp
      have "\<forall>k \<in> set K. \<not> key_in k (map fst (cs @ [(a, c')]))"
        using Cons.prems(1,2) by (auto simp: key_in_def image_iff)
      with Cons.IH[OF _ _ b] Cons.prems(1) show ?thesis by auto
    qed
  qed
qed

lemma collect_lookup:
  "distinct (map py_key K) \<Longrightarrow> \<forall>k \<in> set K. \<not> key_in k (map fst cs) \<Longrightarrow>
   \<forall>k \<in> set K. \<exists>r. child k = Inr r \<Longrightarrow>
   \<exists>cs'. collect child K cs = Inr (cs @ cs') \<and>
         py_key ` fst ` set cs' \<subseteq> py_key ` set K \<and>
         (\<forall>k \<in> set K. child k = Inr (py_lookup cs' k))"
proof (induction K arbitrary: cs)
  case Nil
  then show ?case by simp
next
  case (Cons a K)
  from Cons.prems(3) obtain r where r: "child a = Inr r" by auto
  have notin: "py_key a \<notin> py_key ` set K" using Cons.prems(1) by (auto simp: image_iff)
  show ?case
  proof (cases r)
    case None
    from Cons.IH[of cs] Cons.prems obtain cs' where
      c: "collect child K cs = Inr (cs @ cs')" and
      k: "py_key ` fst ` set cs' \<subseteq> py_key ` set K" and
      l: "\<forall>k \<in> set K. child k = Inr (py_lookup cs' k)"
      by auto
    from k notin have "py_lookup cs' a = None"
      by (force simp: py_lookup_None_iff)
    with c k l r None show ?thesis by auto
  next
    case (Some c')
    from Cons.prems(2) have a: "add_child cs a c' = Inr (cs @ [(a, c')])"
      by (simp add: add_child_fresh)
    have fresh: "\<forall>k \<in> set K. \<not> key_in k (map fst (cs @ [(a, c')]))"
      using Cons.prems(1,2) by (auto simp: key_in_def image_iff)
    from Cons.IH[OF _ fresh] Cons.prems obtain cs' where
      c: "collect child K (cs @ [(a, c')]) = Inr ((cs @ [(a, c')]) @ cs')" and
      k: "py_key ` fst ` set cs' \<subseteq> py_key ` set K" and
      l: "\<forall>k \<in> set K. child k = Inr (py_lookup cs' k)"
      by auto
    have l': "\<forall>k \<in> set K. py_lookup ((a, c') # cs') k = py_lookup cs' k"
      using notin by (auto simp: image_iff)
    have "collect child (a # K) cs = Inr (cs @ ((a, c') # cs'))"
      using r Some a c by simp
    moreover have "py_key ` fst ` set ((a, c') # cs') \<subseteq> py_key ` set (a # K)"
      using k by auto
    moreover have "\<forall>k \<in> set (a # K). child k = Inr (py_lookup ((a, c') # cs') k)"
      using l l' r Some by auto
    ultimately show ?thesis by blast
  qed
qed


lemma finish_Inl: "finish r = Inl e \<longleftrightarrow> r = Inl e"
  by (auto simp: finish_def split: sum.splits)

lemma finish_Inr_Some:
  "finish r = Inr (Some x) \<longleftrightarrow> (\<exists>cs. r = Inr cs \<and> cs \<noteq> [] \<and> x = DictDiff cs)"
  by (auto simp: finish_def has_diff_def split: sum.splits)

lemma finish_Inr_None: "finish r = Inr None \<longleftrightarrow> r = Inr []"
  by (auto simp: finish_def has_diff_def split: sum.splits)

lemma same_type_dict: "py_type a = py_type (PDict s) \<Longrightarrow> \<exists>d. a = PDict d"
  by (cases a) auto

lemma same_type_set: "py_type a = py_type (PSet s) \<Longrightarrow> \<exists>d. a = PSet d"
  by (cases a) auto

lemma same_type_scalar: "py_type a = py_type b \<Longrightarrow> is_scalar a = is_scalar b"
  by (cases a; cases b) auto

lemma union_keys_distinct:
  assumes "\<And>xs. mset (order xs) = mset xs"
  shows "distinct (map py_key (order (py_union a b)))"
  using order_distinct[OF assms] by (simp add: py_union_def distinct_py_set)

lemma union_keys_member:
  assumes "\<And>xs. mset (order xs) = mset xs"
  shows "k \<in> set (order (py_union a b)) \<Longrightarrow> k \<in> set a \<or> k \<in> set b"
  using order_set[OF assms] set_py_set_subset[of "a @ b"] by (auto simp: py_union_def)

lemma collect_union:
  assumes "\<And>xs. mset (order xs) = mset xs"
    and "\<forall>k \<in> set (order (py_union a b)). \<exists>r. child k = Inr r"
  shows "\<exists>cs. collect child (order (py_union a b)) [] = Inr cs \<and>
           py_key ` fst ` set cs \<subseteq> py_key ` set (order (py_union a b)) \<and>
           (\<forall>k \<in> set (order (py_union a b)). child k = Inr (py_lookup cs k))"
proof -
  have "\<forall>k \<in> set (order (py_union a b)). \<not> key_in k (map fst [])"
    by (simp add: key_in_def)
  from collect_lookup[OF union_keys_distinct[OF assms(1)] this assms(2)]
  show ?thesis by simp
qed

lemma diff_json_cases:
  obtains (types) "py_type a \<noteq> py_type b"
  | (scalars) "py_type a = py_type b" "is_scalar a" "is_scalar b"
  | (dicts) s d where "a = PDict s" "b = PDict d"
  | (sets) s d where "a = PSet s" "b = PSet d"
  | (nones) "a = PNone" "b = PNone"
  | (lists) xs ys where "a = PList xs" "b = PList ys"
  by (cases a; cases b) auto

lemmas diff_json_eval =
  diff_json_dict diff_json_set diff_json_scalars diff_json_type_diff diff_json_unsupported
  dict_child_def set_child_def finish_def has_diff_def add_child_def key_in_def py_union_def

text \<open>
  Claim C9. The assertion of \<^verbatim>\<open>DictDiff.add_child\<close> never fails in a call of \<^verbatim>\<open>diff_json\<close>:
  whatever the two values are (canonical or not), and in whatever order the sets of keys
  are iterated, the call does not raise \<^verbatim>\<open>AssertionError\<close>. The keys a loop visits are the
  elements of a set, so pairwise different keys, and every child added so far sits under a
  key visited earlier.
\<close>

theorem diff_json_no_assertion:
  assumes "\<And>xs. mset (order xs) = mset xs"
  shows "diff_json order source destination \<noteq> Inl AssertionError"
  using assms
proof (induction order source destination rule: diff_json.induct)
  case (1 order source destination)
  note perm = "1.prems"
  show ?case
  proof (cases source destination rule: diff_json_cases)
    case types
    then show ?thesis by (simp add: diff_json_type_diff)
  next
    case scalars
    then show ?thesis by (simp add: diff_json_scalars)
  next
    case (dicts s d)
    let ?K = "order (py_union (map fst s) (map fst d))"
    show ?thesis
    proof
      assume "diff_json order source destination = Inl AssertionError"
      then have "collect (dict_child order s d) ?K [] = Inl AssertionError"
        by (simp add: dicts diff_json_dict finish_Inl)
      then obtain k where k: "k \<in> set ?K" and c: "dict_child order s d k = Inl AssertionError"
        using collect_error_from[OF union_keys_distinct[OF perm], of _ _ "[]"]
        by (fastforce simp: key_in_def)
      from c obtain sv dv where l: "py_lookup s k = Some sv" "py_lookup d k = Some dv"
        and r: "diff_json order sv dv = Inl AssertionError"
        by (auto simp: dict_child_def split: option.splits)
      from "1.IH"[OF _ _ _ _ _ k l perm] dicts have "diff_json order sv dv \<noteq> Inl AssertionError"
        by simp
      with r show False by simp
    qed
  next
    case (sets s d)
    let ?K = "order (py_union s d)"
    show ?thesis
    proof
      assume "diff_json order source destination = Inl AssertionError"
      then have "collect (set_child s d) ?K [] = Inl AssertionError"
        by (simp add: sets diff_json_set finish_Inl)
      then obtain k where "set_child s d k = Inl AssertionError"
        using collect_error_from[OF union_keys_distinct[OF perm], of _ _ "[]"]
        by (fastforce simp: key_in_def)
      then show False by (simp add: set_child_def split: if_splits)
    qed
  next
    case nones
    then show ?thesis by (simp add: diff_json_unsupported)
  next
    case (lists xs ys)
    then show ?thesis by (simp add: diff_json_unsupported)
  qed
qed

theorem diff_json_no_assertion_witness:
  "diff_json (\<lambda>xs. xs)
     (PDict [(PStr ''a'', PDict [(PStr ''b'', PInt 1)]), (PStr ''c'', PInt 3)])
     (PDict [(PStr ''a'', PDict [(PStr ''b'', PInt 2)]), (PStr ''d'', PInt 4)])
   \<noteq> Inl AssertionError"
  using diff_json_no_assertion[of "\<lambda>xs. xs"
     "PDict [(PStr ''a'', PDict [(PStr ''b'', PInt 1)]), (PStr ''c'', PInt 3)]"
     "PDict [(PStr ''a'', PDict [(PStr ''b'', PInt 2)]), (PStr ''d'', PInt 4)]"]
  by simp

lemma canonical_lookup:
  "canonical (PDict kvs) \<Longrightarrow> py_lookup kvs k = Some v \<Longrightarrow> canonical v"
  by (auto dest!: py_lookup_SomeD)

lemma py_lookup_key_mem: "k \<in> set (map fst kvs) \<Longrightarrow> py_lookup kvs k \<noteq> None"
  by (auto simp: py_lookup_None_iff)

lemma diff_json_canonical_returns:
  assumes "\<And>xs. mset (order xs) = mset xs" "canonical source" "canonical destination"
  shows "\<exists>r. diff_json order source destination = Inr r"
  using assms
proof (induction order source destination rule: diff_json.induct)
  case (1 order source destination)
  note perm = "1.prems"(1)
  show ?case
  proof (cases source destination rule: diff_json_cases)
    case types
    then show ?thesis by (simp add: diff_json_type_diff)
  next
    case scalars
    then show ?thesis by (simp add: diff_json_scalars)
  next
    case (dicts s d)
    let ?K = "order (py_union (map fst s) (map fst d))"
    have "\<exists>r. dict_child order s d k = Inr r" if k: "k \<in> set ?K" for k
    proof -
      from union_keys_member[OF perm k]
      have some: "py_lookup s k \<noteq> None \<or> py_lookup d k \<noteq> None"
        using py_lookup_key_mem by blast
      show ?thesis
      proof (cases "py_lookup s k")
        case None
        with some show ?thesis by (auto simp: dict_child_def)
      next
        case (Some sv)
        show ?thesis
        proof (cases "py_lookup d k")
          case None
          with Some show ?thesis by (simp add: dict_child_def)
        next
          case (Some dv)
          have "canonical sv" "canonical dv"
            using "1.prems" dicts \<open>py_lookup s k = Some sv\<close> Some canonical_lookup by blast+
          from "1.IH"[OF _ _ _ _ _ k \<open>py_lookup s k = Some sv\<close> Some perm this] dicts
          show ?thesis using \<open>py_lookup s k = Some sv\<close> Some by (simp add: dict_child_def)
        qed
      qed
    qed
    then have "\<forall>k \<in> set ?K. \<exists>r. dict_child order s d k = Inr r"
      by blast
    from collect_union[OF perm this]
    obtain cs where "collect (dict_child order s d) ?K [] = Inr cs"
      by blast
    then show ?thesis by (simp add: dicts diff_json_dict finish_def)
  next
    case (sets s d)
    let ?K = "order (py_union s d)"
    have "\<forall>k \<in> set ?K. \<exists>r. set_child s d k = Inr r"
      by (simp add: set_child_def)
    from collect_union[OF perm this]
    obtain cs where "collect (set_child s d) ?K [] = Inr cs"
      by blast
    then show ?thesis by (simp add: sets diff_json_set finish_def)
  next
    case nones
    with "1.prems" show ?thesis by simp
  next
    case (lists xs ys)
    with "1.prems" show ?thesis by simp
  qed
qed



text \<open>
  Claim C10. \<^verbatim>\<open>diff_json\<close> compares the exact types first: for every integer \<open>i\<close> and
  every float \<open>f\<close> the result is the \<^verbatim>\<open>TypeDiff\<close> of the two, whatever their values.
\<close>

theorem diff_json_int_float_TypeDiff:
  "diff_json order (PInt i) (PFloat f) = Inr (Some (TypeDiff (PInt i) (PFloat f)))"
  by (simp add: diff_json_type_diff)

lemma float_one: "float_key 0x3FF0000000000000 = KNum float_unit"
  by (simp add: float_key_def float_exp_def float_frac_def float_scaled_def float_sign_def
      float_unit_def)

text \<open>
  The integer 1 and the float 1.0 (bit pattern \<open>0x3FF0000000000000\<close>) are equal numbers,
  the same dictionary key, and still a \<^verbatim>\<open>TypeDiff\<close>.
\<close>

theorem diff_json_int_float_TypeDiff_witness:
  "py_key (PInt 1) = py_key (PFloat 0x3FF0000000000000) \<and>
   diff_json (\<lambda>xs. xs) (PInt 1) (PFloat 0x3FF0000000000000)
     = Inr (Some (TypeDiff (PInt 1) (PFloat 0x3FF0000000000000)))"
  using diff_json_int_float_TypeDiff[of "\<lambda>xs. xs" 1 "0x3FF0000000000000"]
  by (simp add: float_one)

lemma scalar_ne_sym: "scalar_ne a b = scalar_ne b a"
  by (cases a; cases b) auto

lemma diff_json_not_leaf:
  assumes "py_type a = py_type b" "\<not> is_scalar a"
  shows "diff_json order a b \<noteq> Inr (Some (TypeDiff x y))"
    and "diff_json order a b \<noteq> Inr (Some (ValueDiff x y))"
proof -
  have "diff_json order a b \<noteq> Inr (Some (TypeDiff x y)) \<and>
        diff_json order a b \<noteq> Inr (Some (ValueDiff x y))"
  proof (cases a b rule: diff_json_cases)
    case types
    with assms show ?thesis by simp
  next
    case scalars
    with assms show ?thesis by simp
  next
    case (dicts s d)
    then show ?thesis by (simp add: diff_json_dict finish_Inr_Some)
  next
    case (sets s d)
    then show ?thesis by (simp add: diff_json_set finish_Inr_Some)
  next
    case nones
    then show ?thesis by (simp add: diff_json_unsupported)
  next
    case (lists xs ys)
    then show ?thesis by (simp add: diff_json_unsupported)
  qed
  then show "diff_json order a b \<noteq> Inr (Some (TypeDiff x y))"
    and "diff_json order a b \<noteq> Inr (Some (ValueDiff x y))"
    by simp_all
qed

text \<open>
  Claim C6. Symmetry of the mismatch kind: when \<^verbatim>\<open>diff_json(a, b)\<close> is a \<^verbatim>\<open>TypeDiff\<close>, so is
  \<^verbatim>\<open>diff_json(b, a)\<close>, with source and destination swapped, and likewise for a
  \<^verbatim>\<open>ValueDiff\<close>. This holds for all values \<open>a\<close> and \<open>b\<close>, canonical or not.
\<close>

theorem diff_json_mismatch_symmetric:
  "(diff_json order a b = Inr (Some (TypeDiff x y)) \<longrightarrow>
      diff_json order b a = Inr (Some (TypeDiff y x))) \<and>
   (diff_json order a b = Inr (Some (ValueDiff x y)) \<longrightarrow>
      diff_json order b a = Inr (Some (ValueDiff y x)))"
proof (cases "py_type a = py_type b")
  case False
  then have "diff_json order a b = Inr (Some (TypeDiff a b))"
    "diff_json order b a = Inr (Some (TypeDiff b a))"
    by (simp_all add: diff_json_type_diff)
  then show ?thesis by auto
next
  case True
  show ?thesis
  proof (cases "is_scalar a")
    case False
    with True show ?thesis by (simp add: diff_json_not_leaf)
  next
    case scalar: True
    with True have "is_scalar b" using same_type_scalar[of a b] by simp
    with True scalar have "diff_json order a b =
        (if scalar_ne a b then Inr (Some (ValueDiff a b)) else Inr None)"
      "diff_json order b a =
        (if scalar_ne a b then Inr (Some (ValueDiff b a)) else Inr None)"
      by (simp_all add: diff_json_scalars scalar_ne_sym[of b a])
    then show ?thesis by auto
  qed
qed

theorem diff_json_mismatch_symmetric_witness:
  "diff_json (\<lambda>xs. xs) (PInt 1) (PStr ''1'') = Inr (Some (TypeDiff (PInt 1) (PStr ''1''))) \<and>
   diff_json (\<lambda>xs. xs) (PStr ''1'') (PInt 1) = Inr (Some (TypeDiff (PStr ''1'') (PInt 1))) \<and>
   diff_json (\<lambda>xs. xs) (PInt 1) (PInt 2) = Inr (Some (ValueDiff (PInt 1) (PInt 2))) \<and>
   diff_json (\<lambda>xs. xs) (PInt 2) (PInt 1) = Inr (Some (ValueDiff (PInt 2) (PInt 1)))"
proof -
  have t: "diff_json (\<lambda>xs. xs) (PInt 1) (PStr ''1'') = Inr (Some (TypeDiff (PInt 1) (PStr ''1'')))"
    by (simp add: diff_json_type_diff)
  have v: "diff_json (\<lambda>xs. xs) (PInt 1) (PInt 2) = Inr (Some (ValueDiff (PInt 1) (PInt 2)))"
    by (simp add: diff_json_scalars)
  from t v
    diff_json_mismatch_symmetric[of "\<lambda>xs. xs" "PInt 1" "PStr ''1''" "PInt 1" "PStr ''1''"]
    diff_json_mismatch_symmetric[of "\<lambda>xs. xs" "PInt 1" "PInt 2" "PInt 1" "PInt 2"]
  show ?thesis by simp
qed

text \<open>
  Claim C1. A diff that \<^verbatim>\<open>diff_json\<close> returns holds no empty \<^verbatim>\<open>DictDiff\<close>: the node
  returned and every node below it, if a \<^verbatim>\<open>DictDiff\<close>, has at least one child. (A comparison
  that collects no child returns \<^verbatim>\<open>None\<close>, by \<open>finish_Inr_None\<close>.)
\<close>

theorem diff_json_no_empty_DictDiff:
  assumes "diff_json order source destination = Inr (Some x)"
  shows "no_empty_DictDiff x"
  using assms
proof (induction order source destination arbitrary: x rule: diff_json.induct)
  case (1 order source destination)
  show ?case
  proof (cases source destination rule: diff_json_cases)
    case types
    with "1.prems" show ?thesis by (auto simp: diff_json_type_diff)
  next
    case scalars
    with "1.prems" show ?thesis by (auto simp: diff_json_scalars split: if_splits)
  next
    case (dicts s d)
    let ?K = "order (py_union (map fst s) (map fst d))"
    from "1.prems" dicts obtain cs where cs: "collect (dict_child order s d) ?K [] = Inr cs"
      "cs \<noteq> []" "x = DictDiff cs"
      by (auto simp: diff_json_dict finish_Inr_Some)
    have "no_empty_DictDiff c" if "(k, c) \<in> set cs" for k c
    proof -
      from collect_from[OF cs(1) that]
      have k: "k \<in> set ?K" and c: "dict_child order s d k = Inr (Some c)" by auto
      show ?thesis
      proof (cases "py_lookup s k")
        case None
        with c show ?thesis by (auto simp: dict_child_def split: option.splits)
      next
        case (Some sv)
        show ?thesis
        proof (cases "py_lookup d k")
          case None
          with c Some show ?thesis by (auto simp: dict_child_def)
        next
          case dv: (Some dv)
          with c Some have "diff_json order sv dv = Inr (Some c)" by (simp add: dict_child_def)
          from "1.IH"[OF _ _ _ _ _ k Some dv this] dicts show ?thesis by simp
        qed
      qed
    qed
    with cs show ?thesis by auto
  next
    case (sets s d)
    let ?K = "order (py_union s d)"
    from "1.prems" sets obtain cs where cs: "collect (set_child s d) ?K [] = Inr cs"
      "cs \<noteq> []" "x = DictDiff cs"
      by (auto simp: diff_json_set finish_Inr_Some)
    have "no_empty_DictDiff c" if "(k, c) \<in> set cs" for k c
      using collect_from[OF cs(1) that] by (auto simp: set_child_def split: if_splits)
    with cs show ?thesis by auto
  next
    case nones
    with "1.prems" show ?thesis by (simp add: diff_json_unsupported)
  next
    case (lists xs ys)
    with "1.prems" show ?thesis by (simp add: diff_json_unsupported)
  qed
qed

theorem diff_json_no_empty_DictDiff_witness:
  "diff_json (\<lambda>xs. xs)
     (PDict [(PStr ''a'', PDict [(PStr ''b'', PInt 1)]), (PStr ''c'', PInt 3)])
     (PDict [(PStr ''a'', PDict [(PStr ''b'', PInt 1)]), (PStr ''d'', PInt 4)])
   = Inr (Some (DictDiff
       [(PStr ''c'', Miss ''DESTINATION'' (PInt 3)), (PStr ''d'', Miss ''SOURCE'' (PInt 4))])) \<and>
   no_empty_DictDiff (DictDiff
       [(PStr ''c'', Miss ''DESTINATION'' (PInt 3)), (PStr ''d'', Miss ''SOURCE'' (PInt 4))])"
proof -
  have "diff_json (\<lambda>xs. xs)
     (PDict [(PStr ''a'', PDict [(PStr ''b'', PInt 1)]), (PStr ''c'', PInt 3)])
     (PDict [(PStr ''a'', PDict [(PStr ''b'', PInt 1)]), (PStr ''d'', PInt 4)])
   = Inr (Some (DictDiff
       [(PStr ''c'', Miss ''DESTINATION'' (PInt 3)), (PStr ''d'', Miss ''SOURCE'' (PInt 4))]))"
    by (simp add: diff_json_eval)
  with diff_json_no_empty_DictDiff[OF this] show ?thesis by simp
qed

lemma dict_child_cong_key:
  "py_key k = py_key k' \<Longrightarrow> dict_child order s d k = dict_child order s d k'"
  unfolding dict_child_def py_lookup_cong_key[of k k' s] py_lookup_cong_key[of k k' d] ..

lemma union_keys_py_key:
  assumes "\<And>xs. mset (order xs) = mset xs"
  shows "py_key ` set (order (py_union a b)) = py_key ` (set a \<union> set b)"
  using order_set[OF assms] py_key_py_set[of "a @ b"] by (simp add: py_union_def)

lemma py_lookup_None_key:
  "py_lookup kvs k = None \<longleftrightarrow> py_key k \<notin> py_key ` set (map fst kvs)"
  by (induction kvs) (auto split: if_splits)

text \<open>
  Claim C2. For two canonical mappings \<^verbatim>\<open>diff_json\<close> returns, and its children are these, key
  by key: a key of the source that the destination lacks has the child
  \<^verbatim>\<open>Miss('DESTINATION', source[key])\<close>; a key of the destination that the source lacks has the
  child \<^verbatim>\<open>Miss('SOURCE', destination[key])\<close>; a key of both has the diff of the two values as
  its child when that diff is not \<^verbatim>\<open>None\<close>, and no child when it is; a key of neither has no
  child. The result is the \<^verbatim>\<open>DictDiff\<close> of these children, or \<^verbatim>\<open>None\<close> when there are none.
\<close>

theorem diff_json_dict_children:
  assumes perm: "\<And>xs. mset (order xs) = mset xs"
    and cs: "canonical (PDict s)" and cd: "canonical (PDict d)"
  shows "\<exists>cs. diff_json order (PDict s) (PDict d)
                 = Inr (if cs = [] then None else Some (DictDiff cs)) \<and>
          (\<forall>key sv dv.
             (py_lookup s key = Some sv \<and> py_lookup d key = None \<longrightarrow>
                py_lookup cs key = Some (Miss ''DESTINATION'' sv)) \<and>
             (py_lookup s key = None \<and> py_lookup d key = Some dv \<longrightarrow>
                py_lookup cs key = Some (Miss ''SOURCE'' dv)) \<and>
             (py_lookup s key = Some sv \<and> py_lookup d key = Some dv \<longrightarrow>
                diff_json order sv dv = Inr (py_lookup cs key)) \<and>
             (py_lookup s key = None \<and> py_lookup d key = None \<longrightarrow>
                py_lookup cs key = None))"
proof -
  let ?K = "order (py_union (map fst s) (map fst d))"
  let ?child = "dict_child order s d"
  have keys: "py_key ` set ?K = py_key ` (set (map fst s) \<union> set (map fst d))"
    by (rule union_keys_py_key[OF perm])
  have ret: "\<exists>r. ?child k = Inr r" if "py_lookup s k \<noteq> None \<or> py_lookup d k \<noteq> None" for k
  proof (cases "py_lookup s k")
    case None
    with that show ?thesis by (auto simp: dict_child_def)
  next
    case (Some sv)
    show ?thesis
    proof (cases "py_lookup d k")
      case None
      with Some show ?thesis by (simp add: dict_child_def)
    next
      case dv: (Some dv)
      have "canonical sv" "canonical dv"
        using cs cd Some dv canonical_lookup by blast+
      from diff_json_canonical_returns[OF perm this] Some dv
      show ?thesis by (simp add: dict_child_def)
    qed
  qed
  have "\<forall>k \<in> set ?K. \<exists>r. ?child k = Inr r"
  proof
    fix k assume "k \<in> set ?K"
    then have "py_key k \<in> py_key ` (set (map fst s) \<union> set (map fst d))"
      using keys by blast
    then have "py_lookup s k \<noteq> None \<or> py_lookup d k \<noteq> None"
      by (auto simp: py_lookup_None_key)
    then show "\<exists>r. ?child k = Inr r" by (rule ret)
  qed
  from collect_union[OF perm this] obtain cs where
    c: "collect ?child ?K [] = Inr cs" and
    sub: "py_key ` fst ` set cs \<subseteq> py_key ` set ?K" and
    l: "\<forall>k \<in> set ?K. ?child k = Inr (py_lookup cs k)"
    by blast
  have res: "diff_json order (PDict s) (PDict d)
             = Inr (if cs = [] then None else Some (DictDiff cs))"
    using c by (simp add: diff_json_dict finish_def has_diff_def)
  have inK: "?child key = Inr (py_lookup cs key)" if "py_key key \<in> py_key ` set ?K" for key
  proof -
    from that obtain k where k: "k \<in> set ?K" "py_key k = py_key key" by auto
    from l k(1) have "?child k = Inr (py_lookup cs k)" by blast
    then show ?thesis
      using dict_child_cong_key[OF k(2), of order s d] py_lookup_cong_key[OF k(2), of cs]
      by simp
  qed
  have outK: "py_lookup cs key = None" if "py_key key \<notin> py_key ` set ?K" for key
    using that sub by (force simp: py_lookup_None_iff)
  have "(py_lookup s key = Some sv \<and> py_lookup d key = None \<longrightarrow>
                py_lookup cs key = Some (Miss ''DESTINATION'' sv)) \<and>
             (py_lookup s key = None \<and> py_lookup d key = Some dv \<longrightarrow>
                py_lookup cs key = Some (Miss ''SOURCE'' dv)) \<and>
             (py_lookup s key = Some sv \<and> py_lookup d key = Some dv \<longrightarrow>
                diff_json order sv dv = Inr (py_lookup cs key)) \<and>
             (py_lookup s key = None \<and> py_lookup d key = None \<longrightarrow>
                py_lookup cs key = None)" for key sv dv
  proof (cases "py_key key \<in> py_key ` set ?K")
    case True
    from inK[OF True] show ?thesis
      by (auto simp: dict_child_def split: option.splits)
  next
    case False
    then have "py_lookup s key = None" "py_lookup d key = None"
      using keys by (auto simp: py_lookup_None_key)
    with outK[OF False] show ?thesis by simp
  qed
  with res show ?thesis by blast
qed


theorem diff_json_dict_children_witness:
  "canonical (PDict [(PStr ''a'', PDict [(PStr ''b'', PInt 1)]), (PStr ''c'', PInt 3)]) \<and>
   canonical (PDict [(PStr ''a'', PDict [(PStr ''b'', PInt 2)]), (PStr ''d'', PInt 4)]) \<and>
   (\<exists>cs. diff_json (\<lambda>xs. xs)
            (PDict [(PStr ''a'', PDict [(PStr ''b'', PInt 1)]), (PStr ''c'', PInt 3)])
            (PDict [(PStr ''a'', PDict [(PStr ''b'', PInt 2)]), (PStr ''d'', PInt 4)])
          = Inr (if cs = [] then None else Some (DictDiff cs)) \<and>
        py_lookup cs (PStr ''c'') = Some (Miss ''DESTINATION'' (PInt 3)) \<and>
        py_lookup cs (PStr ''d'') = Some (Miss ''SOURCE'' (PInt 4)) \<and>
        diff_json (\<lambda>xs. xs) (PDict [(PStr ''b'', PInt 1)]) (PDict [(PStr ''b'', PInt 2)])
          = Inr (py_lookup cs (PStr ''a'')) \<and>
        py_lookup cs (PStr ''e'') = None)"
proof -
  let ?s = "[(PStr ''a'', PDict [(PStr ''b'', PInt 1)]), (PStr ''c'', PInt 3)]"
  let ?d = "[(PStr ''a'', PDict [(PStr ''b'', PInt 2)]), (PStr ''d'', PInt 4)]"
  have cs: "canonical (PDict ?s)" and cd: "canonical (PDict ?d)"
    by (simp_all add: hashable_def)
  have perm: "\<And>xs :: pyval list. mset ((\<lambda>xs. xs) xs) = mset xs" by simp
  from diff_json_dict_children[of "\<lambda>xs. xs" ?s ?d, OF perm cs cd]
  obtain cs where r: "diff_json (\<lambda>xs. xs) (PDict ?s) (PDict ?d)
          = Inr (if cs = [] then None else Some (DictDiff cs))"
    and a: "\<And>key sv dv.
             (py_lookup ?s key = Some sv \<and> py_lookup ?d key = None \<longrightarrow>
                py_lookup cs key = Some (Miss ''DESTINATION'' sv)) \<and>
             (py_lookup ?s key = None \<and> py_lookup ?d key = Some dv \<longrightarrow>
                py_lookup cs key = Some (Miss ''SOURCE'' dv)) \<and>
             (py_lookup ?s key = Some sv \<and> py_lookup ?d key = Some dv \<longrightarrow>
                diff_json (\<lambda>xs. xs) sv dv = Inr (py_lookup cs key)) \<and>
             (py_lookup ?s key = None \<and> py_lookup ?d key = None \<longrightarrow>
                py_lookup cs key = None)"
    by blast
  from a[of "PStr ''c''" "PInt 3"] have 1: "py_lookup cs (PStr ''c'') = Some (Miss ''DESTINATION'' (PInt 3))"
    by simp
  from a[of "PStr ''d''" _ "PInt 4"] have 2: "py_lookup cs (PStr ''d'') = Some (Miss ''SOURCE'' (PInt 4))"
    by simp
  from a[of "PStr ''a''" "PDict [(PStr ''b'', PInt 1)]" "PDict [(PStr ''b'', PInt 2)]"]
  have 3: "diff_json (\<lambda>xs. xs) (PDict [(PStr ''b'', PInt 1)]) (PDict [(PStr ''b'', PInt 2)])
          = Inr (py_lookup cs (PStr ''a''))"
    by simp
  from a[of "PStr ''e''"] have 4: "py_lookup cs (PStr ''e'') = None"
    by simp
  from cs cd r 1 2 3 4 show ?thesis by blast
qed

lemma children_empty_iff:
  assumes "py_key ` fst ` set cs \<subseteq> py_key ` set K"
  shows "cs = [] \<longleftrightarrow> (\<forall>k \<in> set K. py_lookup cs k = None)"
proof
  assume "cs = []"
  then show "\<forall>k \<in> set K. py_lookup cs k = None" by simp
next
  assume none: "\<forall>k \<in> set K. py_lookup cs k = None"
  show "cs = []"
  proof (rule ccontr)
    assume "cs \<noteq> []"
    then obtain k0 c0 rest where "cs = (k0, c0) # rest" by (cases cs) auto
    then have "py_lookup cs k0 = Some c0" "py_key k0 \<in> py_key ` fst ` set cs" by auto
    with assms obtain k where k: "k \<in> set K" "py_key k = py_key k0" by force
    with \<open>py_lookup cs k0 = Some c0\<close> have "py_lookup cs k = Some c0"
      using py_lookup_cong_key[OF k(2), of cs] by simp
    with none k(1) show False by simp
  qed
qed

lemma scalar_ne_refl: "is_scalar a \<Longrightarrow> scalar_ne a a \<longleftrightarrow> \<not> no_nan_value a"
  by (cases a) auto

lemma diff_json_refl_aux:
  assumes "\<And>xs. mset (order xs) = mset xs" "canonical a" "a = b"
  shows "diff_json order a b = Inr None \<longleftrightarrow> no_nan_value a"
  using assms
proof (induction order a b rule: diff_json.induct)
  case (1 order source destination)
  note perm = "1.prems"(1)
  note can = "1.prems"(2)
  note eq = "1.prems"(3)
  show ?case
  proof (cases source destination rule: diff_json_cases)
    case types
    with eq show ?thesis by simp
  next
    case scalars
    with eq show ?thesis by (simp add: diff_json_scalars scalar_ne_refl)
  next
    case (dicts s d)
    with eq have d: "d = s" by simp
    let ?K = "order (py_union (map fst s) (map fst s))"
    let ?child = "dict_child order s s"
    have can_s: "canonical (PDict s)" using can dicts by simp
    have keys: "py_key ` set ?K = py_key ` set (map fst s)"
      using union_keys_py_key[OF perm, of "map fst s" "map fst s"] by simp
    have look: "\<exists>v. py_lookup s k = Some v" if "k \<in> set ?K" for k
    proof -
      from that keys have "py_key k \<in> py_key ` set (map fst s)" by blast
      then have "py_lookup s k \<noteq> None" by (simp add: py_lookup_None_key)
      then show ?thesis by auto
    qed
    have child: "?child k = diff_json order v v" if "py_lookup s k = Some v" for k v
      using that by (simp add: dict_child_def)
    have ih: "diff_json order v v = Inr None \<longleftrightarrow> no_nan_value v"
      if "k \<in> set ?K" "py_lookup s k = Some v" for k v
    proof -
      have "canonical v" using can_s that(2) by (rule canonical_lookup)
      from "1.IH"[OF _ _ _ _ _ _ _ _ perm this refl, of source destination s s k] that dicts d
      show ?thesis by simp
    qed
    have "\<forall>k \<in> set ?K. \<exists>r. ?child k = Inr r"
    proof
      fix k assume k: "k \<in> set ?K"
      from look[OF k] obtain v where v: "py_lookup s k = Some v" by blast
      have "canonical v" using can_s v by (rule canonical_lookup)
      from diff_json_canonical_returns[OF perm this this] child[OF v]
      show "\<exists>r. ?child k = Inr r" by simp
    qed
    from collect_union[OF perm this] obtain cs where
      c: "collect ?child ?K [] = Inr cs" and
      sub: "py_key ` fst ` set cs \<subseteq> py_key ` set ?K" and
      l: "\<forall>k \<in> set ?K. ?child k = Inr (py_lookup cs k)"
      by blast
    have "diff_json order source destination = Inr None \<longleftrightarrow> cs = []"
      using c dicts d by (simp add: diff_json_dict finish_Inr_None)
    also have "\<dots> \<longleftrightarrow> (\<forall>k \<in> set ?K. py_lookup cs k = None)"
      by (rule children_empty_iff[OF sub])
    also have "\<dots> \<longleftrightarrow> (\<forall>k \<in> set ?K. \<forall>v. py_lookup s k = Some v \<longrightarrow> no_nan_value v)"
    proof (intro ball_cong refl)
      fix k assume k: "k \<in> set ?K"
      from look[OF k] obtain v where v: "py_lookup s k = Some v" by blast
      from l k have "?child k = Inr (py_lookup cs k)" by blast
      with child[OF v] have "py_lookup cs k = None \<longleftrightarrow> diff_json order v v = Inr None"
        by auto
      with ih[OF k v] v
      show "py_lookup cs k = None \<longleftrightarrow> (\<forall>v. py_lookup s k = Some v \<longrightarrow> no_nan_value v)"
        by simp
    qed
    also have "\<dots> \<longleftrightarrow> (\<forall>kv \<in> set s. no_nan_value (snd kv))"
    proof
      assume a: "\<forall>k \<in> set ?K. \<forall>v. py_lookup s k = Some v \<longrightarrow> no_nan_value v"
      show "\<forall>kv \<in> set s. no_nan_value (snd kv)"
      proof
        fix kv assume kv: "kv \<in> set s"
        obtain k' v where p: "kv = (k', v)" by (cases kv)
        from can_s have "distinct (map (\<lambda>kv. py_key (fst kv)) s)" by simp
        with kv p have lk: "py_lookup s k' = Some v" by (simp add: py_lookup_mem)
        from kv p have "py_key k' \<in> py_key ` set (map fst s)" by force
        with keys obtain k where k: "k \<in> set ?K" "py_key k = py_key k'" by force
        from lk py_lookup_cong_key[OF k(2), of s] have "py_lookup s k = Some v" by simp
        with a k(1) have "no_nan_value v" by blast
        with p show "no_nan_value (snd kv)" by simp
      qed
    next
      assume a: "\<forall>kv \<in> set s. no_nan_value (snd kv)"
      show "\<forall>k \<in> set ?K. \<forall>v. py_lookup s k = Some v \<longrightarrow> no_nan_value v"
        using a by (force dest: py_lookup_SomeD)
    qed
    finally show ?thesis using dicts by simp
  next
    case (sets s d)
    with eq have d: "d = s" by simp
    let ?K = "order (py_union s s)"
    have mem: "key_in k s" if "k \<in> set ?K" for k
      using union_keys_member[OF perm that] by (auto simp: key_in_def)
    then have none: "\<forall>k \<in> set ?K. set_child s s k = Inr None"
      by (simp add: set_child_def)
    then have "\<forall>k \<in> set ?K. \<exists>r. set_child s s k = Inr r" by simp
    from collect_union[OF perm this] obtain cs where
      c: "collect (set_child s s) ?K [] = Inr cs" and
      sub: "py_key ` fst ` set cs \<subseteq> py_key ` set ?K" and
      l: "\<forall>k \<in> set ?K. set_child s s k = Inr (py_lookup cs k)"
      by blast
    from l none have "\<forall>k \<in> set ?K. py_lookup cs k = None" by simp
    with children_empty_iff[OF sub] have "cs = []" by simp
    with c sets d show ?thesis by (simp add: diff_json_set finish_Inr_None)
  next
    case nones
    with can show ?thesis by simp
  next
    case (lists xs ys)
    with can show ?thesis by simp
  qed
qed


lemma diff_json_refl_shape:
  assumes "\<And>xs. mset (order xs) = mset xs" "canonical a" "a = b"
    and "diff_json order a b = Inr (Some x)"
  shows "nan_self_diff x"
  using assms
proof (induction order a b arbitrary: x rule: diff_json.induct)
  case (1 order source destination)
  note perm = "1.prems"(1)
  note can = "1.prems"(2)
  note eq = "1.prems"(3)
  note res = "1.prems"(4)
  show ?case
  proof (cases source destination rule: diff_json_cases)
    case types
    with eq show ?thesis by simp
  next
    case scalars
    with res have x: "x = ValueDiff source destination" and ne: "scalar_ne source destination"
      by (auto simp: diff_json_scalars split: if_splits)
    from ne eq scalars have "\<not> no_nan_value source" by (simp add: scalar_ne_refl)
    with scalars(2) obtain w where "source = PFloat w" "is_nan w" by (cases source) auto
    with x eq show ?thesis by auto
  next
    case (dicts s d)
    with eq have d: "d = s" by simp
    let ?K = "order (py_union (map fst s) (map fst s))"
    have can_s: "canonical (PDict s)" using can dicts by simp
    from res dicts d obtain cs where cs: "collect (dict_child order s s) ?K [] = Inr cs"
      "cs \<noteq> []" "x = DictDiff cs"
      by (auto simp: diff_json_dict finish_Inr_Some)
    have "nan_self_diff c" if "(k, c) \<in> set cs" for k c
    proof -
      from collect_from[OF cs(1) that]
      have k: "k \<in> set ?K" and c: "dict_child order s s k = Inr (Some c)" by auto
      show ?thesis
      proof (cases "py_lookup s k")
        case None
        with c show ?thesis by (simp add: dict_child_def)
      next
        case (Some v)
        with c have r: "diff_json order v v = Inr (Some c)" by (simp add: dict_child_def)
        have "canonical v" using can_s Some by (rule canonical_lookup)
        from "1.IH"[OF _ _ _ _ _ _ _ _ perm this refl r, of source destination s s k]
          k Some dicts d
        show ?thesis by simp
      qed
    qed
    with cs show ?thesis by auto
  next
    case (sets s d)
    with eq have d: "d = s" by simp
    let ?K = "order (py_union s s)"
    from res sets d obtain cs where cs: "collect (set_child s s) ?K [] = Inr cs"
      "cs \<noteq> []" "x = DictDiff cs"
      by (auto simp: diff_json_set finish_Inr_Some)
    from cs(2) obtain k c where kc: "(k, c) \<in> set cs" by (cases cs) auto
    from collect_from[OF cs(1) kc]
    have k: "k \<in> set ?K" and c: "set_child s s k = Inr (Some c)" by auto
    from union_keys_member[OF perm k] have "key_in k s" by (auto simp: key_in_def)
    with c show ?thesis by (simp add: set_child_def)
  next
    case nones
    with can show ?thesis by simp
  next
    case (lists xs ys)
    with can show ?thesis by simp
  qed
qed

text \<open>
  Claim C5, as the code has it. Reflexivity holds exactly where no NaN is compared: for a
  canonical value \<open>v\<close>, \<^verbatim>\<open>diff_json(v, v)\<close> is \<^verbatim>\<open>None\<close> if and only if neither \<open>v\<close> itself nor a value
  of a mapping in \<open>v\<close>, at any depth, is a NaN float. When one of them is a NaN,
  \<^verbatim>\<open>diff_json(v, v)\<close> returns a diff made of NaN mismatches only: a \<^verbatim>\<open>ValueDiff\<close> of one NaN
  against itself, or a \<^verbatim>\<open>DictDiff\<close> with at least one child whose children are again such
  diffs. (A NaN that is a key of a mapping or an element of a set is found by identity and
  does no harm.)
\<close>

theorem diff_json_reflexive_iff:
  assumes "\<And>xs. mset (order xs) = mset xs" and "canonical v"
  shows "(diff_json order v v = Inr None \<longleftrightarrow> no_nan_value v) \<and>
         (\<not> no_nan_value v \<longrightarrow>
            (\<exists>d. diff_json order v v = Inr (Some d) \<and> nan_self_diff d))"
proof -
  have iff: "diff_json order v v = Inr None \<longleftrightarrow> no_nan_value v"
    using assms diff_json_refl_aux[of order v v] by blast
  have "\<exists>d. diff_json order v v = Inr (Some d) \<and> nan_self_diff d" if nan: "\<not> no_nan_value v"
  proof -
    from diff_json_canonical_returns[OF assms(1) assms(2) assms(2)]
    obtain r where r: "diff_json order v v = Inr r" by blast
    with iff nan obtain d where d: "r = Some d" by (cases r) auto
    from diff_json_refl_shape[OF assms(1) assms(2) refl] r d have "nan_self_diff d" by simp
    with r d show ?thesis by simp
  qed
  with iff show ?thesis by blast
qed

lemma float_nan: "is_nan 0x7FF8000000000000"
  by (simp add: is_nan_def float_exp_def float_frac_def)

lemma float_one_not_nan: "\<not> is_nan 0x3FF0000000000000"
  by (simp add: is_nan_def float_exp_def float_frac_def)

text \<open>
  Two instances: a value without a NaN, which gives \<^verbatim>\<open>None\<close>, and a mapping with the value
  NaN next to the value 1, which gives a diff of NaN mismatches.
\<close>

theorem diff_json_reflexive_iff_witness:
  "canonical (PDict [(PStr ''a'', PDict [(PStr ''b'', PFloat 0x3FF0000000000000)]),
                     (PStr ''s'', PSet [PInt 1, PStr ''x''])]) \<and>
   no_nan_value (PDict [(PStr ''a'', PDict [(PStr ''b'', PFloat 0x3FF0000000000000)]),
                        (PStr ''s'', PSet [PInt 1, PStr ''x''])]) \<and>
   diff_json (\<lambda>xs. xs)
     (PDict [(PStr ''a'', PDict [(PStr ''b'', PFloat 0x3FF0000000000000)]),
             (PStr ''s'', PSet [PInt 1, PStr ''x''])])
     (PDict [(PStr ''a'', PDict [(PStr ''b'', PFloat 0x3FF0000000000000)]),
             (PStr ''s'', PSet [PInt 1, PStr ''x''])])
   = Inr None \<and>
   canonical (PDict [(PStr ''x'', PFloat 0x7FF8000000000000), (PStr ''y'', PInt 1)]) \<and>
   \<not> no_nan_value (PDict [(PStr ''x'', PFloat 0x7FF8000000000000), (PStr ''y'', PInt 1)]) \<and>
   (\<exists>d. diff_json (\<lambda>xs. xs)
          (PDict [(PStr ''x'', PFloat 0x7FF8000000000000), (PStr ''y'', PInt 1)])
          (PDict [(PStr ''x'', PFloat 0x7FF8000000000000), (PStr ''y'', PInt 1)])
        = Inr (Some d) \<and> nan_self_diff d)"
proof -
  let ?v = "PDict [(PStr ''a'', PDict [(PStr ''b'', PFloat 0x3FF0000000000000)]),
                   (PStr ''s'', PSet [PInt 1, PStr ''x''])]"
  let ?n = "PDict [(PStr ''x'', PFloat 0x7FF8000000000000), (PStr ''y'', PInt 1)]"
  have c: "canonical ?v" by (simp add: hashable_def)
  have n: "no_nan_value ?v" by (simp add: float_one_not_nan)
  have c': "canonical ?n" by (simp add: hashable_def)
  have n': "\<not> no_nan_value ?n" by (simp add: float_nan)
  have perm: "\<And>xs :: pyval list. mset ((\<lambda>xs. xs) xs) = mset xs" by simp
  from diff_json_reflexive_iff[of "\<lambda>xs. xs" ?v, OF perm c] n
  have 1: "diff_json (\<lambda>xs. xs) ?v ?v = Inr None" by blast
  from diff_json_reflexive_iff[of "\<lambda>xs. xs" ?n, OF perm c'] n'
  have 2: "\<exists>d. diff_json (\<lambda>xs. xs) ?n ?n = Inr (Some d) \<and> nan_self_diff d" by blast
  from c n 1 c' n' 2 show ?thesis by blast
qed

text \<open>
  The claim as stated fails at the float NaN (bit pattern \<open>0x7FF8000000000000\<close>, Python's
  \<^verbatim>\<open>float('nan')\<close>): it is a canonical value, and \<^verbatim>\<open>nan != nan\<close> makes \<^verbatim>\<open>diff_json(nan, nan)\<close> a
  \<^verbatim>\<open>ValueDiff\<close>. The same happens one level down, in a mapping with the value NaN.
\<close>

theorem diff_json_reflexive_counterexample:
  "canonical (PFloat 0x7FF8000000000000) \<and>
   diff_json (\<lambda>xs. xs) (PFloat 0x7FF8000000000000) (PFloat 0x7FF8000000000000)
     = Inr (Some (ValueDiff (PFloat 0x7FF8000000000000) (PFloat 0x7FF8000000000000))) \<and>
   canonical (PDict [(PStr ''x'', PFloat 0x7FF8000000000000)]) \<and>
   diff_json (\<lambda>xs. xs) (PDict [(PStr ''x'', PFloat 0x7FF8000000000000)])
       (PDict [(PStr ''x'', PFloat 0x7FF8000000000000)])
     = Inr (Some (DictDiff [(PStr ''x'',
         ValueDiff (PFloat 0x7FF8000000000000) (PFloat 0x7FF8000000000000))]))"
  by (simp add: diff_json_eval float_nan hashable_def)

section \<open>Facts about preparation\<close>

lemma prepare_list_empty:
  "prepare_diff_input str (PList []) config = (Inr (PDict []), [])"
  by (subst prepare_diff_input.simps) simp

lemma prepare_list_scalars:
  "is_scalar x0 \<Longrightarrow>
   prepare_diff_input str (PList (x0 # xs)) config =
     (if list_all hashable (x0 # xs) then (Inr (PSet (py_set (x0 # xs))), [])
      else (Inl TypeError, []))"
  by (subst prepare_diff_input.simps) simp

lemma prepare_list_unsupported:
  "\<not> is_scalar x0 \<Longrightarrow> \<not> is_dict x0 \<Longrightarrow>
   prepare_diff_input str (PList (x0 # xs)) config = (Inl NotImplementedError, [])"
  by (subst prepare_diff_input.simps) simp

lemma prepare_list_dicts_no_config:
  "prepare_diff_input str (PList (PDict kvs # xs)) None = (Inl AssertionError, [])"
  by (subst prepare_diff_input.simps) simp

lemma prepare_list_dicts:
  "prepare_diff_input str (PList (PDict kvs # xs)) (Some cfg) =
     (if \<not> pk_truthy (primary_key cfg) then (Inl AssertionError, [])
      else as_dict (records_loop str (primary_key cfg)
             (map (\<lambda>inner. prepare_diff_input str inner (Some cfg)) (PDict kvs # xs))
             (Inr [], [])))"
  by (subst prepare_diff_input.simps)
     (simp add: records_loop_def as_dict_def fold_map comp_def)

lemma prepare_dict:
  "prepare_diff_input str (PDict kvs) config =
     (if kvs = [] then (Inr (PDict []), [])
      else as_dict (fold (\<lambda>(key, val) (acc, log). case acc of
                          Inl e \<Rightarrow> (Inl e, log)
                        | Inr result \<Rightarrow>
                            if ignored config key then (Inr result, log)
                            else
                              (case prepare_diff_input str val (child_config config key) of
                                 (Inl e, l) \<Rightarrow> (Inl e, log @ l)
                               | (Inr v, l) \<Rightarrow> (Inr (py_setitem result key v), log @ l)))
                    kvs (Inr [], [])))"
  by (subst prepare_diff_input.simps) (simp add: as_dict_def)

lemma prepare_scalar:
  "is_scalar data \<Longrightarrow> prepare_diff_input str data config = (Inr data, [])"
  by (subst prepare_diff_input.simps) (cases data; simp)

lemma prepare_unsupported:
  "prepare_diff_input str PNone config = (Inl NotImplementedError, [])"
  "prepare_diff_input str (PSet xs) config = (Inl NotImplementedError, [])"
  by (subst prepare_diff_input.simps, simp)+

lemma float_unit_nonzero: "float_unit \<noteq> 0"
  by (simp add: float_unit_def)

lemmas prepare_eval = float_unit_nonzero
  prepare_list_empty prepare_list_scalars prepare_list_unsupported prepare_list_dicts_no_config
  prepare_list_dicts prepare_dict prepare_scalar prepare_unsupported
  records_loop_def as_dict_def record_step_def record_key_def hashable_def
  ignored_def child_config_def DiffConfig_init_def duplicates_message_def key_in_def


lemma records_loop_Nil: "records_loop str pkey [] st = st"
  by (simp add: records_loop_def)

lemma records_loop_error: "records_loop str pkey ps (Inl e, log) = (Inl e, log)"
  by (induction ps) (simp_all add: records_loop_def)

lemma records_loop_Cons:
  "records_loop str pkey (p # ps) (Inr r, log) =
     records_loop str pkey ps (record_step str pkey p r log)"
  by (simp add: records_loop_def)

lemma records_loop_append:
  "records_loop str pkey (ps @ qs) st = records_loop str pkey qs (records_loop str pkey ps st)"
  by (simp add: records_loop_def)

lemma records_loop_Inr_prefix:
  assumes "records_loop str pkey (ps @ qs) st = (Inr r', log')"
  shows "\<exists>r1 l1. records_loop str pkey ps st = (Inr r1, l1)"
proof (cases "records_loop str pkey ps st")
  case (Pair a l1)
  show ?thesis
  proof (cases a)
    case (Inl e)
    with Pair assms show ?thesis by (simp add: records_loop_append records_loop_error)
  next
    case (Inr r1)
    with Pair show ?thesis by simp
  qed
qed

lemma record_step_Inr:
  assumes "record_step str pkey p r log = (Inr r', log')"
  shows "\<exists>converted l key. p = (Inr converted, l) \<and> record_key str pkey converted = Inr key \<and>
           hashable key \<and>
           (case py_lookup r key of
              None \<Rightarrow> r' = r @ [(key, converted)] \<and> log' = log @ l
            | Some kept \<Rightarrow> r' = r \<and> log' = log @ l @ [duplicates_message str converted kept])"
  using assms
  by (auto simp: record_step_def split: prod.splits sum.splits if_splits option.splits)

lemma record_step_stable:
  assumes "record_step str pkey p r log = (Inr r', log')"
  shows "(py_lookup r k = Some v \<longrightarrow> py_lookup r' k = Some v) \<and> set log \<subseteq> set log'"
  using record_step_Inr[OF assms]
  by (auto simp: py_lookup_append split: option.splits)

lemma records_loop_stable:
  "records_loop str pkey ps (Inr r, log) = (Inr r', log') \<Longrightarrow>
   (py_lookup r k = Some v \<longrightarrow> py_lookup r' k = Some v) \<and> set log \<subseteq> set log'"
proof (induction ps arbitrary: r log)
  case Nil
  then show ?case by (simp add: records_loop_Nil)
next
  case (Cons p ps)
  obtain a l1 where st: "record_step str pkey p r log = (a, l1)"
    by (cases "record_step str pkey p r log")
  show ?case
  proof (cases a)
    case (Inl e)
    with st Cons.prems show ?thesis
      by (simp add: records_loop_Cons records_loop_error)
  next
    case (Inr r1)
    with st Cons.prems have "records_loop str pkey ps (Inr r1, l1) = (Inr r', log')"
      by (simp add: records_loop_Cons)
    from Cons.IH[OF this] record_step_stable[of str pkey p r log r1 l1 k v] st Inr
    show ?thesis by auto
  qed
qed

lemma records_loop_from:
  "records_loop str pkey ps (Inr r, log) = (Inr r', log') \<Longrightarrow> (k, v) \<in> set r' \<Longrightarrow>
   (k, v) \<in> set r \<or> (\<exists>l. (Inr v, l) \<in> set ps \<and> record_key str pkey v = Inr k)"
proof (induction ps arbitrary: r log)
  case Nil
  then show ?case by (simp add: records_loop_Nil)
next
  case (Cons p ps)
  obtain a l1 where st: "record_step str pkey p r log = (a, l1)"
    by (cases "record_step str pkey p r log")
  show ?case
  proof (cases a)
    case (Inl e)
    with st Cons.prems show ?thesis
      by (simp add: records_loop_Cons records_loop_error)
  next
    case (Inr r1)
    with st Cons.prems have loop: "records_loop str pkey ps (Inr r1, l1) = (Inr r', log')"
      by (simp add: records_loop_Cons)
    from Cons.IH[OF loop Cons.prems(2)]
    consider "(k, v) \<in> set r1" | "\<exists>l. (Inr v, l) \<in> set ps \<and> record_key str pkey v = Inr k"
      by blast
    then show ?thesis
    proof cases
      case 1
      from record_step_Inr[of str pkey p r log r1 l1] st Inr 1 show ?thesis
        by (auto split: option.splits)
    next
      case 2
      then show ?thesis by auto
    qed
  qed
qed

lemma as_dict_Inr: "as_dict st = (Inr v, log) \<longleftrightarrow> (\<exists>r. st = (Inr r, log) \<and> v = PDict r)"
  by (cases st) (auto simp: as_dict_def split: sum.splits)

lemma is_dict_iff: "is_dict x \<longleftrightarrow> (\<exists>kvs. x = PDict kvs)"
  by (cases x) auto

lemma prepare_list_loop:
  assumes "xs = [] \<or> is_dict (hd xs)" "pk_truthy (primary_key cfg)"
  shows "prepare_diff_input str (PList xs) (Some cfg) =
     as_dict (records_loop str (primary_key cfg)
       (map (\<lambda>inner. prepare_diff_input str inner (Some cfg)) xs) (Inr [], []))"
proof (cases xs)
  case Nil
  then show ?thesis by (simp add: prepare_list_empty records_loop_Nil as_dict_def)
next
  case (Cons x0 rest)
  with assms obtain kvs where "x0 = PDict kvs" by (auto simp: is_dict_iff)
  with Cons assms(2) show ?thesis by (simp add: prepare_list_dicts)
qed

lemma prepare_list_truthy:
  assumes "prepare_diff_input str (PList xs) (Some cfg) = (Inr v, log)" "xs \<noteq> []" "is_dict (hd xs)"
  shows "pk_truthy (primary_key cfg)"
proof (cases xs)
  case Nil
  with assms show ?thesis by simp
next
  case (Cons x0 rest)
  with assms obtain kvs where "x0 = PDict kvs" by (auto simp: is_dict_iff)
  with Cons assms(1) show ?thesis by (auto simp: prepare_list_dicts split: if_splits)
qed

lemma prepare_dict_result:
  "prepare_diff_input str (PDict kvs) config = (Inr v, l) \<Longrightarrow> \<exists>r. v = PDict r"
  by (auto simp: prepare_dict as_dict_Inr split: if_splits)

lemma find_key_dict:
  "list_all hashable fields \<Longrightarrow> find_key fields (PDict kvs) = Inr (spec_record_key fields kvs)"
  by (induction fields) (auto simp: spec_record_key_def split: option.splits)


text \<open>What \<^verbatim>\<open>prepare_diff_input\<close> returns is never a list and never \<^verbatim>\<open>None\<close>.\<close>

lemma prepare_result_type:
  assumes "prepare_diff_input str data config = (Inr v, l)"
  shows "py_type v \<noteq> T_list \<and> py_type v \<noteq> T_NoneType"
proof (cases data)
  case PNone
  with assms show ?thesis by (simp add: prepare_unsupported)
next
  case (PBool b)
  with assms show ?thesis by (auto simp: prepare_scalar)
next
  case (PInt i)
  with assms show ?thesis by (auto simp: prepare_scalar)
next
  case (PFloat w)
  with assms show ?thesis by (auto simp: prepare_scalar)
next
  case (PStr s)
  with assms show ?thesis by (auto simp: prepare_scalar)
next
  case (PList xs)
  show ?thesis
  proof (cases xs)
    case Nil
    with PList assms show ?thesis by (auto simp: prepare_list_empty)
  next
    case (Cons x0 rest)
    show ?thesis
    proof (cases "is_scalar x0")
      case True
      with PList Cons assms show ?thesis
        by (auto simp: prepare_list_scalars split: if_splits)
    next
      case False
      show ?thesis
      proof (cases "is_dict x0")
        case no: False
        with False PList Cons assms show ?thesis by (simp add: prepare_list_unsupported)
      next
        case True
        then obtain kvs where "x0 = PDict kvs" by (auto simp: is_dict_iff)
        with PList Cons assms show ?thesis
          by (cases config) (auto simp: prepare_list_dicts prepare_list_dicts_no_config
              as_dict_Inr split: if_splits)
      qed
    qed
  qed
next
  case (PDict kvs)
  with assms prepare_dict_result show ?thesis by fastforce
next
  case (PSet xs)
  with assms show ?thesis by (simp add: prepare_unsupported)
qed

lemma records_loop_element:
  assumes final: "records_loop str pkey (ps @ p # qs) (Inr [], []) = (Inr result, log)"
  shows "\<exists>rb lb converted l key.
     records_loop str pkey ps (Inr [], []) = (Inr rb, lb) \<and>
     p = (Inr converted, l) \<and> record_key str pkey converted = Inr key \<and>
     (case py_lookup rb key of
        Some kept \<Rightarrow>
          records_loop str pkey (ps @ [p]) (Inr [], [])
            = (Inr rb, lb @ l @ [duplicates_message str converted kept]) \<and>
          py_lookup result key = Some kept \<and>
          duplicates_message str converted kept \<in> set log
      | None \<Rightarrow>
          records_loop str pkey (ps @ [p]) (Inr [], [])
            = (Inr (rb @ [(key, converted)]), lb @ l) \<and>
          py_lookup result key = Some converted)"
proof -
  have split: "ps @ p # qs = (ps @ [p]) @ qs" by simp
  from records_loop_Inr_prefix[of str pkey "ps @ [p]" qs] final
  obtain r2 l2 where st2: "records_loop str pkey (ps @ [p]) (Inr [], []) = (Inr r2, l2)"
    unfolding split by blast
  from records_loop_Inr_prefix[OF st2]
  obtain rb lb where st1: "records_loop str pkey ps (Inr [], []) = (Inr rb, lb)"
    by blast
  from st2 st1 have step: "record_step str pkey p rb lb = (Inr r2, l2)"
    by (simp add: records_loop_append records_loop_Cons records_loop_Nil)
  have "records_loop str pkey (ps @ p # qs) (Inr [], []) =
        records_loop str pkey qs (records_loop str pkey (ps @ [p]) (Inr [], []))"
    unfolding split by (rule records_loop_append)
  with final st2 have rest: "records_loop str pkey qs (Inr r2, l2) = (Inr result, log)"
    by simp
  from record_step_Inr[OF step] obtain converted l key where
    p: "p = (Inr converted, l)" and key: "record_key str pkey converted = Inr key" and
    c: "case py_lookup rb key of
          None \<Rightarrow> r2 = rb @ [(key, converted)] \<and> l2 = lb @ l
        | Some kept \<Rightarrow> r2 = rb \<and> l2 = lb @ l @ [duplicates_message str converted kept]"
    by blast
  have stable: "py_lookup r2 key = Some v \<Longrightarrow> py_lookup result key = Some v" for v
    using records_loop_stable[OF rest, of key v] by simp
  have logs: "set l2 \<subseteq> set log"
    using records_loop_stable[OF rest] by simp
  have "case py_lookup rb key of
        Some kept \<Rightarrow>
          records_loop str pkey (ps @ [p]) (Inr [], [])
            = (Inr rb, lb @ l @ [duplicates_message str converted kept]) \<and>
          py_lookup result key = Some kept \<and>
          duplicates_message str converted kept \<in> set log
      | None \<Rightarrow>
          records_loop str pkey (ps @ [p]) (Inr [], [])
            = (Inr (rb @ [(key, converted)]), lb @ l) \<and>
          py_lookup result key = Some converted"
  proof (cases "py_lookup rb key")
    case None
    with c have r2: "r2 = rb @ [(key, converted)]" "l2 = lb @ l" by simp_all
    with None have "py_lookup r2 key = Some converted" by (simp add: py_lookup_append)
    from stable[OF this] st2 r2 None show ?thesis by simp
  next
    case (Some kept)
    with c have r2: "r2 = rb" "l2 = lb @ l @ [duplicates_message str converted kept]" by simp_all
    with Some stable logs st2 show ?thesis by auto
  qed
  with st1 p key show ?thesis by blast
qed

text \<open>
  Claim C3, at the input where the code departs from it. A \<^verbatim>\<open>DiffConfig\<close> built with
  \<^verbatim>\<open>primary_key=None\<close> (the default) holds the list \<^verbatim>\<open>[None]\<close>, which is true, so the assertion
  on a list of mappings passes; no record has the field \<^verbatim>\<open>None\<close>, and the one record is
  returned under the key \<^verbatim>\<open>None\<close>.
\<close>

theorem prepare_null_primary_key_accepted:
  "primary_key (DiffConfig_init PNone None None) = PK_fields [PNone] \<and>
   prepare_diff_input str (PList [PDict [(PStr ''a'', PInt 1)]])
       (Some (DiffConfig_init PNone None None))
     = (Inr (PDict [(PNone, PDict [(PStr ''a'', PInt 1)])]), [])"
  by (simp add: prepare_eval)

text \<open>
  Claim C8, as the code has it. \<^verbatim>\<open>[1, 2]\<close> is a list of scalars, which needs no configuration:
  with \<^verbatim>\<open>config=None\<close> it is returned as the set of 1 and 2. A list whose first element is a
  mapping, prepared with \<^verbatim>\<open>config=None\<close>, fails at once with \<^verbatim>\<open>AssertionError\<close>: no result, and
  nothing logged.
\<close>

theorem prepare_without_config:
  "prepare_diff_input str (PList [PInt 1, PInt 2]) None = (Inr (PSet [PInt 1, PInt 2]), []) \<and>
   prepare_diff_input str (PList (PDict kvs # rest)) None = (Inl AssertionError, [])"
  by (simp add: prepare_eval)

theorem prepare_without_config_witness:
  "prepare_diff_input (\<lambda>v. []) (PList [PInt 1, PInt 2]) None
     = (Inr (PSet [PInt 1, PInt 2]), []) \<and>
   prepare_diff_input (\<lambda>v. []) (PList [PDict [(PStr ''a'', PInt 1)], PDict []]) None
     = (Inl AssertionError, [])"
  using prepare_without_config[of "\<lambda>v. []" "[(PStr ''a'', PInt 1)]" "[PDict []]"]
  by simp

text \<open>
  The claim as stated fails at its own input: \<^verbatim>\<open>prepare_diff_input([1, 2], config=None)\<close> returns
  a set.
\<close>

theorem prepare_scalar_list_counterexample:
  "prepare_diff_input (\<lambda>v. []) (PList [PInt 1, PInt 2]) None = (Inr (PSet [PInt 1, PInt 2]), [])"
  by (simp add: prepare_eval)

text \<open>
  Claim C4. Let a list whose first element is a mapping be prepared into \<open>result\<close>, and let
  \<open>inner\<close> be one of its elements, after the elements \<open>before\<close>. The mapping built from
  \<open>before\<close> is what preparing \<open>before\<close> alone returns. If the key of the prepared \<open>inner\<close> is
  already in it, with the record \<open>kept\<close>, then \<open>inner\<close> is dropped: the mapping is unchanged,
  and exactly one message is logged, the text \<^verbatim>\<open>Duplicates found:\<close>, a newline, \<^verbatim>\<open>str\<close> of the
  dropped record, a newline, \<^verbatim>\<open>---\<close>, a newline and \<^verbatim>\<open>str\<close> of \<open>kept\<close>; the final \<open>result\<close>
  still has \<open>kept\<close> under the key. If the key is new, the prepared \<open>inner\<close> is added under
  it, and the final \<open>result\<close> has it there: the first record of a key wins.
\<close>

theorem prepare_first_record_wins:
  assumes run: "prepare_diff_input str (PList (before @ inner # after)) (Some cfg)
                  = (Inr (PDict result), log)"
    and first: "is_dict (hd (before @ [inner]))"
  shows "\<exists>so_far log_so_far converted l key.
     prepare_diff_input str (PList before) (Some cfg) = (Inr (PDict so_far), log_so_far) \<and>
     prepare_diff_input str inner (Some cfg) = (Inr converted, l) \<and>
     record_key str (primary_key cfg) converted = Inr key \<and>
     (case py_lookup so_far key of
        Some kept \<Rightarrow>
          prepare_diff_input str (PList (before @ [inner])) (Some cfg)
            = (Inr (PDict so_far),
               log_so_far @ l @
               [''Duplicates found:'' @ [CHR 0x0A] @ str converted @ [CHR 0x0A] @
                ''---'' @ [CHR 0x0A] @ str kept]) \<and>
          py_lookup result key = Some kept \<and>
          ''Duplicates found:'' @ [CHR 0x0A] @ str converted @ [CHR 0x0A] @
            ''---'' @ [CHR 0x0A] @ str kept \<in> set log
      | None \<Rightarrow>
          prepare_diff_input str (PList (before @ [inner])) (Some cfg)
            = (Inr (PDict (so_far @ [(key, converted)])), log_so_far @ l) \<and>
          py_lookup result key = Some converted)"
proof -
  let ?f = "\<lambda>inner. prepare_diff_input str inner (Some cfg)"
  let ?pk = "primary_key cfg"
  let ?xs = "before @ inner # after"
  have hd_xs: "is_dict (hd ?xs)" using first by (cases before) auto
  have truthy: "pk_truthy ?pk"
    using prepare_list_truthy[OF run _ hd_xs] by simp
  have hd_before: "before = [] \<or> is_dict (hd before)" using first by (cases before) auto
  have hd_upto: "before @ [inner] = [] \<or> is_dict (hd (before @ [inner]))" using first by simp
  from run have "as_dict (records_loop str ?pk (map ?f ?xs) (Inr [], [])) = (Inr (PDict result), log)"
    using prepare_list_loop[of ?xs cfg str] hd_xs truthy by simp
  then have "records_loop str ?pk (map ?f before @ ?f inner # map ?f after) (Inr [], [])
             = (Inr result, log)"
    by (auto simp: as_dict_Inr)
  from records_loop_element[OF this] obtain rb lb converted l key where
    st1: "records_loop str ?pk (map ?f before) (Inr [], []) = (Inr rb, lb)" and
    p: "?f inner = (Inr converted, l)" and key: "record_key str ?pk converted = Inr key" and
    c: "case py_lookup rb key of
        Some kept \<Rightarrow>
          records_loop str ?pk (map ?f before @ [?f inner]) (Inr [], [])
            = (Inr rb, lb @ l @ [duplicates_message str converted kept]) \<and>
          py_lookup result key = Some kept \<and>
          duplicates_message str converted kept \<in> set log
      | None \<Rightarrow>
          records_loop str ?pk (map ?f before @ [?f inner]) (Inr [], [])
            = (Inr (rb @ [(key, converted)]), lb @ l) \<and>
          py_lookup result key = Some converted"
    by blast
  have pb: "prepare_diff_input str (PList before) (Some cfg) = (Inr (PDict rb), lb)"
    using prepare_list_loop[OF hd_before truthy, of str] st1 by (simp add: as_dict_def)
  have pu: "prepare_diff_input str (PList (before @ [inner])) (Some cfg) =
      as_dict (records_loop str ?pk (map ?f before @ [?f inner]) (Inr [], []))"
    using prepare_list_loop[OF hd_upto truthy, of str] by simp
  have "case py_lookup rb key of
        Some kept \<Rightarrow>
          prepare_diff_input str (PList (before @ [inner])) (Some cfg)
            = (Inr (PDict rb), lb @ l @ [duplicates_message str converted kept]) \<and>
          py_lookup result key = Some kept \<and>
          duplicates_message str converted kept \<in> set log
      | None \<Rightarrow>
          prepare_diff_input str (PList (before @ [inner])) (Some cfg)
            = (Inr (PDict (rb @ [(key, converted)])), lb @ l) \<and>
          py_lookup result key = Some converted"
    using c unfolding pu by (cases "py_lookup rb key") (simp_all add: as_dict_def)
  with pb p key have "\<exists>so_far log_so_far converted l key.
     prepare_diff_input str (PList before) (Some cfg) = (Inr (PDict so_far), log_so_far) \<and>
     prepare_diff_input str inner (Some cfg) = (Inr converted, l) \<and>
     record_key str (primary_key cfg) converted = Inr key \<and>
     (case py_lookup so_far key of
        Some kept \<Rightarrow>
          prepare_diff_input str (PList (before @ [inner])) (Some cfg)
            = (Inr (PDict so_far),
               log_so_far @ l @ [duplicates_message str converted kept]) \<and>
          py_lookup result key = Some kept \<and>
          duplicates_message str converted kept \<in> set log
      | None \<Rightarrow>
          prepare_diff_input str (PList (before @ [inner])) (Some cfg)
            = (Inr (PDict (so_far @ [(key, converted)])), log_so_far @ l) \<and>
          py_lookup result key = Some converted)"
    by blast
  then show ?thesis unfolding duplicates_message_def .
qed

text \<open>
  Three records, the third with the key of the first, under a \<^verbatim>\<open>str\<close> that writes a record
  of string fields as \<^verbatim>\<open>field=value;\<close> for each field: the message logged names the dropped
  record (\<^verbatim>\<open>v=z\<close>) and the one kept (\<^verbatim>\<open>v=x\<close>).
\<close>

theorem prepare_first_record_wins_witness:
  "prepare_diff_input
      (\<lambda>v. case v of PDict kvs \<Rightarrow> concat (map (\<lambda>kv. case kv of (PStr k, PStr x) \<Rightarrow> k @ ''='' @ x @ '';'' | _ \<Rightarrow> []) kvs) | _ \<Rightarrow> [])
      (PList [PDict [(PStr ''id'', PStr ''a''), (PStr ''v'', PStr ''x'')],
              PDict [(PStr ''id'', PStr ''b''), (PStr ''v'', PStr ''y'')],
              PDict [(PStr ''id'', PStr ''a''), (PStr ''v'', PStr ''z'')]])
      (Some (DiffConfig_init (PStr ''id'') None None))
    = (Inr (PDict [(PStr ''a'', PDict [(PStr ''id'', PStr ''a''), (PStr ''v'', PStr ''x'')]),
                   (PStr ''b'', PDict [(PStr ''id'', PStr ''b''), (PStr ''v'', PStr ''y'')])]),
       [''Duplicates found:'' @ [CHR 0x0A] @ ''id=a;v=z;'' @ [CHR 0x0A] @ ''---'' @ [CHR 0x0A] @ ''id=a;v=x;'']) \<and>
   (\<exists>so_far log_so_far converted l key.
     prepare_diff_input
        (\<lambda>v. case v of PDict kvs \<Rightarrow> concat (map (\<lambda>kv. case kv of (PStr k, PStr x) \<Rightarrow> k @ ''='' @ x @ '';'' | _ \<Rightarrow> []) kvs) | _ \<Rightarrow> [])
        (PList [PDict [(PStr ''id'', PStr ''a''), (PStr ''v'', PStr ''x'')],
                PDict [(PStr ''id'', PStr ''b''), (PStr ''v'', PStr ''y'')]])
        (Some (DiffConfig_init (PStr ''id'') None None)) = (Inr (PDict so_far), log_so_far) \<and>
     prepare_diff_input
        (\<lambda>v. case v of PDict kvs \<Rightarrow> concat (map (\<lambda>kv. case kv of (PStr k, PStr x) \<Rightarrow> k @ ''='' @ x @ '';'' | _ \<Rightarrow> []) kvs) | _ \<Rightarrow> [])
        (PDict [(PStr ''id'', PStr ''a''), (PStr ''v'', PStr ''z'')])
        (Some (DiffConfig_init (PStr ''id'') None None)) = (Inr converted, l) \<and>
     record_key
        (\<lambda>v. case v of PDict kvs \<Rightarrow> concat (map (\<lambda>kv. case kv of (PStr k, PStr x) \<Rightarrow> k @ ''='' @ x @ '';'' | _ \<Rightarrow> []) kvs) | _ \<Rightarrow> [])
        (primary_key (DiffConfig_init (PStr ''id'') None None)) converted = Inr key \<and>
     py_lookup so_far key = Some (PDict [(PStr ''id'', PStr ''a''), (PStr ''v'', PStr ''x'')]) \<and>
     prepare_diff_input
        (\<lambda>v. case v of PDict kvs \<Rightarrow> concat (map (\<lambda>kv. case kv of (PStr k, PStr x) \<Rightarrow> k @ ''='' @ x @ '';'' | _ \<Rightarrow> []) kvs) | _ \<Rightarrow> [])
        (PList [PDict [(PStr ''id'', PStr ''a''), (PStr ''v'', PStr ''x'')],
                PDict [(PStr ''id'', PStr ''b''), (PStr ''v'', PStr ''y'')],
                PDict [(PStr ''id'', PStr ''a''), (PStr ''v'', PStr ''z'')]])
        (Some (DiffConfig_init (PStr ''id'') None None))
       = (Inr (PDict so_far),
          log_so_far @ l @
          [''Duplicates found:'' @ [CHR 0x0A] @ ''id=a;v=z;'' @ [CHR 0x0A] @ ''---'' @ [CHR 0x0A] @ ''id=a;v=x;'']) \<and>
     py_lookup [(PStr ''a'', PDict [(PStr ''id'', PStr ''a''), (PStr ''v'', PStr ''x'')]),
                (PStr ''b'', PDict [(PStr ''id'', PStr ''b''), (PStr ''v'', PStr ''y'')])] key
       = Some (PDict [(PStr ''id'', PStr ''a''), (PStr ''v'', PStr ''x'')]))"
proof -
  let ?r1 = "PDict [(PStr ''id'', PStr ''a''), (PStr ''v'', PStr ''x'')]"
  let ?r2 = "PDict [(PStr ''id'', PStr ''b''), (PStr ''v'', PStr ''y'')]"
  let ?r3 = "PDict [(PStr ''id'', PStr ''a''), (PStr ''v'', PStr ''z'')]"
  let ?cfg = "DiffConfig_init (PStr ''id'') None None"
  let ?str = "(\<lambda>v. case v of PDict kvs \<Rightarrow> concat (map (\<lambda>kv. case kv of (PStr k, PStr x) \<Rightarrow> k @ ''='' @ x @ '';'' | _ \<Rightarrow> []) kvs) | _ \<Rightarrow> [])"
  let ?msg = "''Duplicates found:'' @ [CHR 0x0A] @ ''id=a;v=z;'' @ [CHR 0x0A] @ ''---'' @ [CHR 0x0A] @ ''id=a;v=x;''"
  have s1: "?str ?r1 = ''id=a;v=x;''" and s3: "?str ?r3 = ''id=a;v=z;''"
    by simp_all
  have run: "prepare_diff_input ?str (PList ([?r1, ?r2] @ ?r3 # [])) (Some ?cfg)
      = (Inr (PDict [(PStr ''a'', ?r1), (PStr ''b'', ?r2)]), [?msg])"
    by (simp add: prepare_eval)
  have first: "is_dict (hd ([?r1, ?r2] @ [?r3]))" by simp
  from prepare_first_record_wins[OF run first]
  obtain so_far log_so_far converted l key where
    a: "prepare_diff_input ?str (PList [?r1, ?r2]) (Some ?cfg) = (Inr (PDict so_far), log_so_far)"
    and b: "prepare_diff_input ?str ?r3 (Some ?cfg) = (Inr converted, l)"
    and c: "record_key ?str (primary_key ?cfg) converted = Inr key"
    and d: "case py_lookup so_far key of
        Some kept \<Rightarrow>
          prepare_diff_input ?str (PList ([?r1, ?r2] @ [?r3])) (Some ?cfg)
            = (Inr (PDict so_far),
               log_so_far @ l @
               [''Duplicates found:'' @ [CHR 0x0A] @ ?str converted @ [CHR 0x0A] @
                ''---'' @ [CHR 0x0A] @ ?str kept]) \<and>
          py_lookup [(PStr ''a'', ?r1), (PStr ''b'', ?r2)] key = Some kept \<and>
          ''Duplicates found:'' @ [CHR 0x0A] @ ?str converted @ [CHR 0x0A] @
            ''---'' @ [CHR 0x0A] @ ?str kept \<in> set [?msg]
      | None \<Rightarrow>
          prepare_diff_input ?str (PList ([?r1, ?r2] @ [?r3])) (Some ?cfg)
            = (Inr (PDict (so_far @ [(key, converted)])), log_so_far @ l) \<and>
          py_lookup [(PStr ''a'', ?r1), (PStr ''b'', ?r2)] key = Some converted"
    by blast
  from a have so_far: "so_far = [(PStr ''a'', ?r1), (PStr ''b'', ?r2)]"
    by (simp add: prepare_eval)
  from b have conv: "converted = ?r3" by (simp add: prepare_eval)
  from c conv have key: "key = PStr ''a''" by (simp add: prepare_eval)
  have e: "py_lookup so_far key = Some ?r1" using so_far key by simp
  from d e have f: "prepare_diff_input ?str (PList ([?r1, ?r2] @ [?r3])) (Some ?cfg)
            = (Inr (PDict so_far),
               log_so_far @ l @
               [''Duplicates found:'' @ [CHR 0x0A] @ ?str converted @ [CHR 0x0A] @
                ''---'' @ [CHR 0x0A] @ ?str ?r1])"
    and g: "py_lookup [(PStr ''a'', ?r1), (PStr ''b'', ?r2)] key = Some ?r1"
    by simp_all
  from f have f': "prepare_diff_input ?str (PList [?r1, ?r2, ?r3]) (Some ?cfg)
      = (Inr (PDict so_far), log_so_far @ l @ [?msg])"
    unfolding conv s1 s3 by simp
  have run': "prepare_diff_input ?str (PList [?r1, ?r2, ?r3]) (Some ?cfg)
      = (Inr (PDict [(PStr ''a'', ?r1), (PStr ''b'', ?r2)]), [?msg])"
    using run by simp
  from run' a b c e f' g show ?thesis by blast
qed

text \<open>
  Claim C7. Let a list of mappings be prepared into \<open>result\<close> under a configuration whose
  primary key is a list of candidate fields (hashable values, such as field names). Every
  element prepares to a mapping, and its key is the value, in that prepared mapping, of the
  first candidate that is one of its keys (\<^verbatim>\<open>None\<close> when no candidate is); candidates that are
  not keys of the prepared mapping are passed over. \<open>result\<close> has an entry under that key, and
  every entry of \<open>result\<close> is a prepared element under its key so computed.
\<close>

theorem prepare_record_key_first_field:
  assumes run: "prepare_diff_input str (PList xs) (Some cfg) = (Inr (PDict result), log)"
    and pk: "primary_key cfg = PK_fields fields"
    and fields: "list_all hashable fields"
    and dicts: "list_all is_dict xs"
  shows "(\<forall>inner \<in> set xs. \<exists>kvs l.
            prepare_diff_input str inner (Some cfg) = (Inr (PDict kvs), l) \<and>
            record_key str (primary_key cfg) (PDict kvs) = Inr (spec_record_key fields kvs) \<and>
            py_lookup result (spec_record_key fields kvs) \<noteq> None) \<and>
         (\<forall>entry \<in> set result. \<exists>inner \<in> set xs. \<exists>kvs l.
            prepare_diff_input str inner (Some cfg) = (Inr (PDict kvs), l) \<and>
            entry = (spec_record_key fields kvs, PDict kvs))"
proof (cases "xs = []")
  case True
  with run show ?thesis by (simp add: prepare_list_empty)
next
  case False
  let ?f = "\<lambda>inner. prepare_diff_input str inner (Some cfg)"
  let ?pk = "primary_key cfg"
  from False dicts have hd_xs: "is_dict (hd xs)" by (cases xs) auto
  have truthy: "pk_truthy ?pk" by (rule prepare_list_truthy[OF run False hd_xs])
  from run have "as_dict (records_loop str ?pk (map ?f xs) (Inr [], [])) = (Inr (PDict result), log)"
    using prepare_list_loop[of xs cfg str] hd_xs truthy by simp
  then have final: "records_loop str ?pk (map ?f xs) (Inr [], []) = (Inr result, log)"
    by (auto simp: as_dict_Inr)
  have key_of: "\<exists>kvs. converted = PDict kvs \<and> key = spec_record_key fields kvs"
    if "inner \<in> set xs" "?f inner = (Inr converted, l)" "record_key str ?pk converted = Inr key"
    for inner converted l key
  proof -
    from that(1) dicts obtain raw where "inner = PDict raw"
      by (auto simp: list_all_iff is_dict_iff)
    with that(2) obtain kvs where kvs: "converted = PDict kvs"
      using prepare_dict_result by blast
    with that(3) pk fields have "key = spec_record_key fields kvs"
      by (simp add: record_key_def find_key_dict)
    with kvs show ?thesis by blast
  qed
  have part1: "\<exists>kvs l. ?f inner = (Inr (PDict kvs), l) \<and>
            record_key str ?pk (PDict kvs) = Inr (spec_record_key fields kvs) \<and>
            py_lookup result (spec_record_key fields kvs) \<noteq> None"
    if inner: "inner \<in> set xs" for inner
  proof -
    from split_list[OF inner] obtain before after where xs: "xs = before @ inner # after"
      by blast
    from final have "records_loop str ?pk (map ?f before @ ?f inner # map ?f after) (Inr [], [])
        = (Inr result, log)"
      by (simp add: xs)
    from records_loop_element[OF this] obtain rb converted l key where
      p: "?f inner = (Inr converted, l)" and key: "record_key str ?pk converted = Inr key" and
      c: "case py_lookup rb key of
            Some kept \<Rightarrow> py_lookup result key = Some kept
          | None \<Rightarrow> py_lookup result key = Some converted"
      by (fastforce split: option.splits)
    from c have present: "py_lookup result key \<noteq> None" by (auto split: option.splits)
    from key_of[OF inner p key] obtain kvs where
      "converted = PDict kvs" "key = spec_record_key fields kvs" by blast
    with p key present show ?thesis by auto
  qed
  have part2: "\<exists>inner \<in> set xs. \<exists>kvs l. ?f inner = (Inr (PDict kvs), l) \<and>
            entry = (spec_record_key fields kvs, PDict kvs)"
    if entry: "entry \<in> set result" for entry
  proof -
    obtain key converted where e: "entry = (key, converted)" by (cases entry)
    from records_loop_from[OF final, of key converted] entry e
    obtain l where "(Inr converted, l) \<in> set (map ?f xs)"
      and key: "record_key str ?pk converted = Inr key"
      by auto
    then obtain inner where inner: "inner \<in> set xs" and p: "?f inner = (Inr converted, l)"
      by auto
    from key_of[OF inner p key] obtain kvs where
      "converted = PDict kvs" "key = spec_record_key fields kvs" by blast
    with inner p e show ?thesis by blast
  qed
  from part1 part2 show ?thesis by blast
qed


theorem prepare_record_key_first_field_witness:
  "prepare_diff_input (\<lambda>v. [])
      (PList [PDict [(PStr ''id'', PInt 1)],
              PDict [(PStr ''id'', PInt 2), (PStr ''name'', PStr ''n'')]])
      (Some (DiffConfig_init (PList [PStr ''name'', PStr ''id'']) None None))
    = (Inr (PDict [(PInt 1, PDict [(PStr ''id'', PInt 1)]),
                   (PStr ''n'', PDict [(PStr ''id'', PInt 2), (PStr ''name'', PStr ''n'')])]),
       []) \<and>
   spec_record_key [PStr ''name'', PStr ''id''] [(PStr ''id'', PInt 1)] = PInt 1 \<and>
   spec_record_key [PStr ''name'', PStr ''id''] [(PStr ''id'', PInt 2), (PStr ''name'', PStr ''n'')]
     = PStr ''n'' \<and>
   (\<exists>kvs l.
      prepare_diff_input (\<lambda>v. []) (PDict [(PStr ''id'', PInt 2), (PStr ''name'', PStr ''n'')])
          (Some (DiffConfig_init (PList [PStr ''name'', PStr ''id'']) None None))
        = (Inr (PDict kvs), l) \<and>
      record_key (\<lambda>v. [])
          (primary_key (DiffConfig_init (PList [PStr ''name'', PStr ''id'']) None None))
          (PDict kvs)
        = Inr (spec_record_key [PStr ''name'', PStr ''id''] kvs) \<and>
      py_lookup [(PInt 1, PDict [(PStr ''id'', PInt 1)]),
                 (PStr ''n'', PDict [(PStr ''id'', PInt 2), (PStr ''name'', PStr ''n'')])]
          (spec_record_key [PStr ''name'', PStr ''id''] kvs)
        \<noteq> None)"
proof -
  let ?r1 = "PDict [(PStr ''id'', PInt 1)]"
  let ?r2 = "PDict [(PStr ''id'', PInt 2), (PStr ''name'', PStr ''n'')]"
  let ?fields = "[PStr ''name'', PStr ''id'']"
  let ?cfg = "DiffConfig_init (PList ?fields) None None"
  let ?str = "\<lambda>v :: pyval. [] :: string"
  let ?result = "[(PInt 1, ?r1), (PStr ''n'', ?r2)]"
  have run: "prepare_diff_input ?str (PList [?r1, ?r2]) (Some ?cfg) = (Inr (PDict ?result), [])"
    by (simp add: prepare_eval spec_record_key_def)
  have pk: "primary_key ?cfg = PK_fields ?fields" by (simp add: DiffConfig_init_def)
  have fields: "list_all hashable ?fields" by (simp add: hashable_def)
  have dicts: "list_all is_dict [?r1, ?r2]" by simp
  have k1: "spec_record_key ?fields [(PStr ''id'', PInt 1)] = PInt 1"
    and k2: "spec_record_key ?fields [(PStr ''id'', PInt 2), (PStr ''name'', PStr ''n'')] = PStr ''n''"
    by (simp_all add: spec_record_key_def)
  from prepare_record_key_first_field[OF run pk fields dicts]
  have "\<forall>inner \<in> set [?r1, ?r2]. \<exists>kvs l.
            prepare_diff_input ?str inner (Some ?cfg) = (Inr (PDict kvs), l) \<and>
            record_key ?str (primary_key ?cfg) (PDict kvs) = Inr (spec_record_key ?fields kvs) \<and>
            py_lookup ?result (spec_record_key ?fields kvs) \<noteq> None"
    by blast
  then have "\<exists>kvs l.
            prepare_diff_input ?str ?r2 (Some ?cfg) = (Inr (PDict kvs), l) \<and>
            record_key ?str (primary_key ?cfg) (PDict kvs) = Inr (spec_record_key ?fields kvs) \<and>
            py_lookup ?result (spec_record_key ?fields kvs) \<noteq> None"
    by simp
  with run k1 k2 show ?thesis by blast
qed

end
